theory Spec2Isabelle
  imports Complex_Main
begin

unbundle bit_operations_syntax

section \<open>JavaScript numbers\<close>

text \<open>
  The component is TypeScript; its numbers are IEEE 754 doubles. A finite double is
  represented by the real number it denotes, next to the three non-finite values, and
  \<open>null\<close> and \<open>undefined\<close> are \<open>None\<close> of an option type. Every arithmetic operation
  returns the Number value for its exact result (ECMA-262, 6.1.6.1): the exact result
  rounded to the nearest double, a tie going to the double with the even significand, and
  an infinity when the rounded result reaches \<open>2\<^sup>1\<^sup>0\<^sup>2\<^sup>4\<close>. The sign of zero is not
  modelled: the component never divides by zero, and \<open>-0\<close> compares equal to \<open>0\<close> and prints
  as \<open>0\<close>.
\<close>

datatype jsnum = Fin real | PosInf | NegInf | NaN

subsection \<open>Rounding to a double\<close>

text \<open>
  \<open>binade x\<close> is the exponent \<open>e\<close> with \<open>2\<^sup>e \<le> |x| < 2\<^sup>e\<^sup>+\<^sup>1\<close> (\<open>binade_iff\<close> below), and
  \<open>ulp x\<close> the distance between neighbouring doubles there: 53 bits of significand, and the
  spacing \<open>2\<^sup>-\<^sup>1\<^sup>0\<^sup>7\<^sup>4\<close> of the subnormal numbers below \<open>2\<^sup>-\<^sup>1\<^sup>0\<^sup>2\<^sup>2\<close>.
\<close>

definition binade :: "real \<Rightarrow> int" where
  "binade x = \<lfloor>log 2 \<bar>x\<bar>\<rfloor>"

definition ulp :: "real \<Rightarrow> real" where
  "ulp x = 2 powi (max (binade x) (- 1022) - 52)"

definition roundTiesToEven :: "real \<Rightarrow> int" where
  "roundTiesToEven y =
     (let n = \<lfloor>y\<rfloor>
      in if y - of_int n < 1 / 2 then n
         else if 1 / 2 < y - of_int n then n + 1
         else if even n then n else n + 1)"

definition round_double :: "real \<Rightarrow> real" where
  "round_double x = (if x = 0 then 0 else ulp x * of_int (roundTiesToEven (x / ulp x)))"

definition overflow_bound :: real where
  "overflow_bound = 2 ^ 1024"

text \<open>The Number value for the real \<open>x\<close>.\<close>

definition Number_of :: "real \<Rightarrow> jsnum" where
  "Number_of x =
     (let r = round_double x
      in if overflow_bound \<le> r then PosInf
         else if r \<le> - overflow_bound then NegInf else Fin r)"


subsection \<open>Operations\<close>

text \<open>\<^verbatim>\<open>typeof value === "number" && Number.isFinite(value)\<close>\<close>

fun isFiniteNumber :: "jsnum option \<Rightarrow> bool" where
  "isFiniteNumber (Some (Fin x)) = True"
| "isFiniteNumber _ = False"

fun js_neg :: "jsnum \<Rightarrow> jsnum" where
  "js_neg (Fin x) = Fin (- x)"
| "js_neg PosInf = NegInf"
| "js_neg NegInf = PosInf"
| "js_neg NaN = NaN"

fun js_add :: "jsnum \<Rightarrow> jsnum \<Rightarrow> jsnum" where
  "js_add NaN b = NaN"
| "js_add a NaN = NaN"
| "js_add (Fin a) (Fin b) = Number_of (a + b)"
| "js_add PosInf NegInf = NaN"
| "js_add NegInf PosInf = NaN"
| "js_add PosInf b = PosInf"
| "js_add NegInf b = NegInf"
| "js_add a PosInf = PosInf"
| "js_add a NegInf = NegInf"

definition js_sub :: "jsnum \<Rightarrow> jsnum \<Rightarrow> jsnum" where
  "js_sub a b = js_add a (js_neg b)"

text \<open>The sign of a number that is not NaN, as \<open>-1\<close>, \<open>0\<close> or \<open>1\<close>.\<close>

fun js_sign :: "jsnum \<Rightarrow> int" where
  "js_sign (Fin x) = (if x < 0 then - 1 else if x = 0 then 0 else 1)"
| "js_sign PosInf = 1"
| "js_sign NegInf = - 1"
| "js_sign NaN = 0"

fun js_mul :: "jsnum \<Rightarrow> jsnum \<Rightarrow> jsnum" where
  "js_mul NaN b = NaN"
| "js_mul a NaN = NaN"
| "js_mul (Fin a) (Fin b) = Number_of (a * b)"
| "js_mul a b =
     (let s = js_sign a * js_sign b
      in if s = 0 then NaN else if 0 < s then PosInf else NegInf)"

text \<open>Division; a zero divisor is taken as \<open>+0\<close>.\<close>

fun js_div :: "jsnum \<Rightarrow> jsnum \<Rightarrow> jsnum" where
  "js_div NaN b = NaN"
| "js_div a NaN = NaN"
| "js_div (Fin a) (Fin b) =
     (if b \<noteq> 0 then Number_of (a / b)
      else if a = 0 then NaN else if 0 < a then PosInf else NegInf)"
| "js_div (Fin a) b = Fin 0"
| "js_div a (Fin b) = (if (js_sign a = 1) = (0 \<le> b) then PosInf else NegInf)"
| "js_div a b = NaN"

text \<open>The comparison \<^verbatim>\<open>a <= b\<close>: false as soon as one side is NaN.\<close>

fun js_le :: "jsnum \<Rightarrow> jsnum \<Rightarrow> bool" where
  "js_le NaN b = False"
| "js_le a NaN = False"
| "js_le (Fin a) (Fin b) = (a \<le> b)"
| "js_le NegInf b = True"
| "js_le a PosInf = True"
| "js_le a b = False"

text \<open>\<^verbatim>\<open>Math.min\<close> and \<^verbatim>\<open>Math.max\<close> of two arguments; they return one of their
  arguments, so nothing is rounded.\<close>

fun Math_min :: "jsnum \<Rightarrow> jsnum \<Rightarrow> jsnum" where
  "Math_min NaN b = NaN"
| "Math_min a NaN = NaN"
| "Math_min a b = (if js_le a b then a else b)"

fun Math_max :: "jsnum \<Rightarrow> jsnum \<Rightarrow> jsnum" where
  "Math_max NaN b = NaN"
| "Math_max a NaN = NaN"
| "Math_max a b = (if js_le a b then b else a)"

text \<open>
  \<^verbatim>\<open>Math.min(...xs)\<close> and \<^verbatim>\<open>Math.max(...xs)\<close>. Spreading a list into the arguments of a
  call raises a \<^verbatim>\<open>RangeError\<close> when the list is longer than the engine can pass;
  ECMA-262 leaves that limit to the engine, so it is the parameter \<open>maxArguments\<close>. With no
  argument the results are \<open>Infinity\<close> and \<open>-Infinity\<close>.
\<close>

datatype error = RangeError

definition Math_min_spread :: "nat \<Rightarrow> jsnum list \<Rightarrow> error + jsnum" where
  "Math_min_spread maxArguments xs =
     (if maxArguments < length xs then Inl RangeError
      else Inr (fold (\<lambda>x acc. Math_min acc x) xs PosInf))"

definition Math_max_spread :: "nat \<Rightarrow> jsnum list \<Rightarrow> error + jsnum" where
  "Math_max_spread maxArguments xs =
     (if maxArguments < length xs then Inl RangeError
      else Inr (fold (\<lambda>x acc. Math_max acc x) xs NegInf))"

text \<open>\<^verbatim>\<open>Math.round\<close>: the nearest integer, a tie going up. ECMA-262 defines it on the exact
  value, and the result is a double whenever the argument is one.\<close>

fun Math_round :: "jsnum \<Rightarrow> jsnum" where
  "Math_round (Fin x) = Fin (of_int \<lfloor>x + 1 / 2\<rfloor>)"
| "Math_round a = a"

subsection \<open>Numbers as text\<close>

definition digit_char :: "nat \<Rightarrow> char" where
  "digit_char n = ''0123456789'' ! (n mod 10)"

fun nat_to_string :: "nat \<Rightarrow> string" where
  "nat_to_string n =
     (if n < 10 then [digit_char n] else nat_to_string (n div 10) @ [digit_char (n mod 10)])"

declare nat_to_string.simps [simp del]

definition int_to_string :: "int \<Rightarrow> string" where
  "int_to_string i = (if i < 0 then CHR ''-'' # nat_to_string (nat (- i)) else nat_to_string (nat i))"

text \<open>
  A number inside a template literal. The decimal text of a finite number is modelled for
  integral values below \<open>10\<^sup>2\<^sup>1\<close> in size, which is what the component prints.
\<close>

fun num_to_string :: "jsnum \<Rightarrow> string" where
  "num_to_string (Fin x) = int_to_string \<lfloor>x\<rfloor>"
| "num_to_string PosInf = ''Infinity''"
| "num_to_string NegInf = ''-Infinity''"
| "num_to_string NaN = ''NaN''"

section \<open>Cell size\<close>

text \<open>
  \<^verbatim>\<open>CalendarHeatmapCellSize = number | { width?: number; height?: number }\<close>; an absent
  field is \<open>None\<close>.
\<close>

datatype CalendarHeatmapCellSize = SizeNumber jsnum | SizeObject "jsnum option" "jsnum option"

record Dimensions =
  width :: jsnum
  height :: jsnum

text \<open>Truthiness of a number: every number but \<open>0\<close> and \<open>NaN\<close>.\<close>

fun truthy :: "jsnum \<Rightarrow> bool" where
  "truthy (Fin x) = (x \<noteq> 0)"
| "truthy NaN = False"
| "truthy a = True"

text \<open>
  \<^verbatim>\<open>resolveCellDimensions(size, fallback)\<close>. A number that is not finite is neither a finite
  number nor an object, and falls to the last line. In the object case \<open>w\<close> and \<open>h\<close> are the
  source's \<^verbatim>\<open>width\<close> and \<^verbatim>\<open>height\<close>: the field when it is a finite number, else undefined;
  the three \<^verbatim>\<open>if\<close>s test their truthiness in the source's order.
\<close>

definition finiteOrUndefined :: "jsnum option \<Rightarrow> jsnum option" where
  "finiteOrUndefined v = (if isFiniteNumber v then v else None)"

fun resolveCellDimensions :: "CalendarHeatmapCellSize option \<Rightarrow> jsnum \<Rightarrow> Dimensions" where
  "resolveCellDimensions (Some (SizeNumber n)) fallback =
     (if isFiniteNumber (Some n) then \<lparr>width = n, height = n\<rparr>
      else \<lparr>width = fallback, height = fallback\<rparr>)"
| "resolveCellDimensions (Some (SizeObject sw sh)) fallback =
     (case (finiteOrUndefined sw, finiteOrUndefined sh) of
        (Some w, Some h) \<Rightarrow>
          if truthy w \<and> truthy h then \<lparr>width = w, height = h\<rparr>
          else if truthy w then \<lparr>width = w, height = w\<rparr>
          else if truthy h then \<lparr>width = h, height = h\<rparr>
          else \<lparr>width = fallback, height = fallback\<rparr>
      | (Some w, None) \<Rightarrow>
          if truthy w then \<lparr>width = w, height = w\<rparr>
          else \<lparr>width = fallback, height = fallback\<rparr>
      | (None, Some h) \<Rightarrow>
          if truthy h then \<lparr>width = h, height = h\<rparr>
          else \<lparr>width = fallback, height = fallback\<rparr>
      | (None, None) \<Rightarrow> \<lparr>width = fallback, height = fallback\<rparr>)"
| "resolveCellDimensions None fallback = \<lparr>width = fallback, height = fallback\<rparr>"

section \<open>Intensity scale\<close>

text \<open>\<^verbatim>\<open>clamp01(x) = Math.max(0, Math.min(1, x))\<close>\<close>

definition clamp01 :: "jsnum \<Rightarrow> jsnum" where
  "clamp01 x = Math_max (Fin 0) (Math_min (Fin 1) x)"

text \<open>
  \<^verbatim>\<open>buildScale(values)\<close> returns the closure \<^verbatim>\<open>intensity\<close> and the pair
  \<^verbatim>\<open>thresholds = [resolvedMin, resolvedMax]\<close>, unless one of the two spread calls raises.
\<close>

record Scale =
  intensity :: "jsnum option \<Rightarrow> jsnum"
  thresholds :: "jsnum list"

definition buildScale :: "nat \<Rightarrow> jsnum list \<Rightarrow> error + Scale" where
  "buildScale maxArguments values =
     (let finiteVals = filter (\<lambda>v. isFiniteNumber (Some v)) values;
          fallbackValue = Fin 0
      in case (if length finiteVals > 0 then Math_min_spread maxArguments finiteVals
               else Inr fallbackValue) of
           Inl e \<Rightarrow> Inl e
         | Inr resolvedMin \<Rightarrow>
             (case (if length finiteVals > 0 then Math_max_spread maxArguments finiteVals
                    else Inr resolvedMin) of
                Inl e \<Rightarrow> Inl e
              | Inr resolvedMax \<Rightarrow>
                  (let range = js_sub resolvedMax resolvedMin
                   in Inr \<lparr>intensity = (\<lambda>v. case v of
                               None \<Rightarrow> Fin 0
                             | Some x \<Rightarrow> if range = Fin 0 then Fin 1
                                         else clamp01 (js_div (js_sub x resolvedMin) range)),
                           thresholds = [resolvedMin, resolvedMax]\<rparr>)))"


section \<open>Legend\<close>

definition DEFAULT_LEGEND_LABELS :: "string list" where
  "DEFAULT_LEGEND_LABELS = [''Low'', ''Medium'', ''High'', ''Very High'']"

definition LEGEND_STEP_COUNT :: nat where
  "LEGEND_STEP_COUNT = 4"

text \<open>\<^verbatim>\<open>xs.slice(a, b)\<close> for \<open>0 \<le> a \<le> b\<close>, and \<^verbatim>\<open>xs[i]\<close>, which is undefined out of range.\<close>

definition slice :: "'a list \<Rightarrow> nat \<Rightarrow> nat \<Rightarrow> 'a list" where
  "slice xs a b = take (b - a) (drop a xs)"

definition array_get :: "'a list \<Rightarrow> nat \<Rightarrow> 'a option" where
  "array_get xs i = (if i < length xs then Some (xs ! i) else None)"

record LegendLevel =
  label :: "string option"
  level_intensity :: jsnum

definition legendLabelsResolved :: "string list option \<Rightarrow> string list" where
  "legendLabelsResolved legendLabels =
     (let base = (case legendLabels of
                    Some ls \<Rightarrow> if length ls > 0 then ls else DEFAULT_LEGEND_LABELS
                  | None \<Rightarrow> DEFAULT_LEGEND_LABELS)
      in if length base \<ge> LEGEND_STEP_COUNT then slice base 0 LEGEND_STEP_COUNT
         else base @ slice DEFAULT_LEGEND_LABELS (length base) LEGEND_STEP_COUNT)"

definition legendLevels :: "bool \<Rightarrow> string list \<Rightarrow> LegendLevel list" where
  "legendLevels showLegend resolved =
     (if \<not> showLegend then []
      else map (\<lambda>idx. \<lparr>label = array_get resolved idx,
                        level_intensity = js_div (Fin (real idx)) (Fin (real (LEGEND_STEP_COUNT - 1)))\<rparr>)
               [0..<LEGEND_STEP_COUNT])"

section \<open>Value index\<close>

text \<open>\<^verbatim>\<open>DayValue = { date: string; value: number | null }\<close>\<close>

record DayValue =
  date :: string
  val :: "jsnum option"

text \<open>
  \<^verbatim>\<open>dateValueMap\<close>: a \<^verbatim>\<open>Map<string, number | null>\<close> filled by \<^verbatim>\<open>m.set\<close> in input order.
  A key that was never set looks up as \<open>None\<close>; a key set to \<^verbatim>\<open>null\<close> as \<open>Some None\<close>.
\<close>

definition normalizeValue :: "jsnum option \<Rightarrow> jsnum option" where
  "normalizeValue v = (if isFiniteNumber v then v else None)"

definition dateValueMap :: "DayValue list \<Rightarrow> (string \<rightharpoonup> jsnum option)" where
  "dateValueMap data = fold (\<lambda>dv m. m(date dv \<mapsto> normalizeValue (val dv))) data Map.empty"

text \<open>\<^verbatim>\<open>scaleValues = data.map((d) => d.value ?? NaN).filter((v) => Number.isFinite(v))\<close>\<close>

definition scaleValues :: "DayValue list \<Rightarrow> jsnum list" where
  "scaleValues data =
     filter (\<lambda>v. isFiniteNumber (Some v)) (map (\<lambda>d. case val d of None \<Rightarrow> NaN | Some x \<Rightarrow> x) data)"

section \<open>Colors\<close>

text \<open>
  Strings are lists of characters; the model reads ASCII text. \<^verbatim>\<open>hex.replace("#", "")\<close>
  removes the first \<^verbatim>\<open>#\<close> only.
\<close>

fun replace_hash :: "string \<Rightarrow> string" where
  "replace_hash [] = []"
| "replace_hash (c # cs) = (if c = CHR ''#'' then cs else c # replace_hash cs)"

definition hex_digit_val :: "char \<Rightarrow> int option" where
  "hex_digit_val c =
     (let n = (of_char c :: nat)
      in if 48 \<le> n \<and> n \<le> 57 then Some (int n - 48)
         else if 97 \<le> n \<and> n \<le> 102 then Some (int n - 87)
         else if 65 \<le> n \<and> n \<le> 70 then Some (int n - 55)
         else None)"

definition is_hex_digit :: "char \<Rightarrow> bool" where
  "is_hex_digit c = (hex_digit_val c \<noteq> None)"

definition digit_of :: "char \<Rightarrow> int" where
  "digit_of c = (case hex_digit_val c of Some d \<Rightarrow> d | None \<Rightarrow> 0)"

definition is_white_space :: "char \<Rightarrow> bool" where
  "is_white_space c = ((of_char c :: nat) \<in> {9, 10, 11, 12, 13, 32})"

definition hex_value :: "string \<Rightarrow> int" where
  "hex_value z = foldl (\<lambda>acc c. 16 * acc + digit_of c) 0 z"

text \<open>
  \<^verbatim>\<open>parseInt(s, 16)\<close> after ECMA-262: leading white space is skipped, then an optional
  sign, then an optional \<^verbatim>\<open>0x\<close> or \<^verbatim>\<open>0X\<close>; the longest prefix of hexadecimal digits is read
  as an integer, and the result is the Number value for it, or NaN without any digit.
\<close>

definition parseInt16 :: "string \<Rightarrow> jsnum" where
  "parseInt16 s =
     (let s1 = dropWhile is_white_space s;
          sign = (case s1 of c # r \<Rightarrow> if c = CHR ''-'' then - 1 else 1 | [] \<Rightarrow> 1);
          s2 = (case s1 of c # r \<Rightarrow> if c = CHR ''-'' \<or> c = CHR ''+'' then r else s1 | [] \<Rightarrow> s1);
          s3 = (case s2 of c # x # r \<Rightarrow>
                   if c = CHR ''0'' \<and> (x = CHR ''x'' \<or> x = CHR ''X'') then r else s2
                | _ \<Rightarrow> s2);
          z = takeWhile is_hex_digit s3
      in if z = [] then NaN else Number_of (of_int (sign * hex_value z)))"

text \<open>The bitwise operators first convert their operand to a signed 32-bit integer
  (\<open>ToInt32\<close>): NaN and the infinities become \<open>0\<close>, a finite number is truncated towards
  zero and wrapped around modulo \<open>2\<^sup>3\<^sup>2\<close>.\<close>

definition toInt32 :: "jsnum \<Rightarrow> int" where
  "toInt32 v =
     (case v of Fin x \<Rightarrow> signed_take_bit 31 (if 0 \<le> x then \<lfloor>x\<rfloor> else \<lceil>x\<rceil>) | _ \<Rightarrow> 0)"

definition hexToRgb :: "string \<Rightarrow> int \<times> int \<times> int" where
  "hexToRgb hex =
     (let c = replace_hash hex;
          bigint = parseInt16 (if length c = 3 then concat (map (\<lambda>ch. [ch, ch]) c) else c);
          r = drop_bit 16 (toInt32 bigint) AND 255;
          g = drop_bit 8 (toInt32 bigint) AND 255;
          b = toInt32 bigint AND 255
      in (r, g, b))"

text \<open>The template literal \<^verbatim>\<open>rgb(${rr}, ${gg}, ${bb})\<close>, and one channel of the mix,
  \<^verbatim>\<open>Math.round(r + (255 - r) * (1 - t))\<close>.\<close>

definition rgb_template :: "jsnum \<Rightarrow> jsnum \<Rightarrow> jsnum \<Rightarrow> string" where
  "rgb_template rr gg bb =
     ''rgb('' @ num_to_string rr @ '', '' @ num_to_string gg @ '', '' @ num_to_string bb @ '')''"

definition mixChannel :: "int \<Rightarrow> jsnum \<Rightarrow> jsnum" where
  "mixChannel r t =
     Math_round (js_add (Fin (of_int r)) (js_mul (js_sub (Fin 255) (Fin (of_int r))) (js_sub (Fin 1) t)))"

definition mixToWhite :: "string \<Rightarrow> jsnum \<Rightarrow> string" where
  "mixToWhite hex t =
     (case hexToRgb hex of (r, g, b) \<Rightarrow>
        let rr = mixChannel r t; gg = mixChannel g t; bb = mixChannel b t
        in rgb_template rr gg bb)"

subsection \<open>The specification's reading of a color\<close>








section \<open>Dates\<close>

text \<open>
  All calendar arithmetic of the component goes through the host's \<^verbatim>\<open>Date\<close>. Every Date it
  builds is a local midnight, and of the clock's \<^verbatim>\<open>new Date()\<close> it reads the year and the
  month only; so a Date is modelled by its local day number, the days since 1 January 1970,
  and the functions below are ECMA-262's \<open>DayFromYear\<close>, \<open>DaysInYear\<close>, \<open>YearFromTime\<close>,
  \<open>InLeapYear\<close>, \<open>DayWithinYear\<close>, \<open>MonthFromTime\<close>, \<open>DateFromTime\<close>, \<open>WeekDay\<close> and \<open>MakeDay\<close>
  on day numbers (proleptic Gregorian calendar, months \<open>0\<close> to \<open>11\<close>, Sunday \<open>0\<close>). Outside
  the model: time zones and their shifts, invalid Dates (from NaN), and the limit of
  \<open>10\<^sup>8\<close> days around 1970 beyond which a Date is invalid. Within that limit all the
  numbers of a Date are integers below \<open>2\<^sup>5\<^sup>3\<close>, on which double arithmetic is exact, so they
  are of type \<open>int\<close>.
\<close>

datatype Date = Date (day_number: int)

definition DayFromYear :: "int \<Rightarrow> int" where
  "DayFromYear y = 365 * (y - 1970) + (y - 1969) div 4 - (y - 1901) div 100 + (y - 1601) div 400"

definition DaysInYear :: "int \<Rightarrow> int" where
  "DaysInYear y = (if y mod 4 \<noteq> 0 then 365 else if y mod 100 \<noteq> 0 then 366
                   else if y mod 400 \<noteq> 0 then 365 else 366)"

text \<open>
  ECMA-262 defines the year of a day as the largest \<open>y\<close> with \<open>DayFromYear y \<le> d\<close>. It is
  computed here from an estimate that is off by at most one; \<open>YearFromDay_bounds\<close> and
  \<open>YearFromDay_unique\<close> below show that the result is that year.
\<close>

definition YearFromDay :: "int \<Rightarrow> int" where
  "YearFromDay d = (let y0 = 1970 + (400 * d) div 146097 in
     if d < DayFromYear y0 then y0 - 1
     else if DayFromYear (y0 + 1) \<le> d then y0 + 1 else y0)"

definition LeapOfYear :: "int \<Rightarrow> int" where
  "LeapOfYear y = (if DaysInYear y = 366 then 1 else 0)"

definition InLeapYear :: "int \<Rightarrow> int" where
  "InLeapYear d = LeapOfYear (YearFromDay d)"

definition DayWithinYear :: "int \<Rightarrow> int" where
  "DayWithinYear d = d - DayFromYear (YearFromDay d)"

text \<open>The day within the year on which month \<open>m\<close> starts, as in the table of
  \<open>MonthFromTime\<close>; \<open>leap\<close> is \<open>1\<close> in a leap year and \<open>0\<close> otherwise.\<close>

definition month_start :: "int \<Rightarrow> int \<Rightarrow> int" where
  "month_start leap m =
     (if m = 0 then 0 else if m = 1 then 31 else if m = 2 then 59 + leap
      else if m = 3 then 90 + leap else if m = 4 then 120 + leap else if m = 5 then 151 + leap
      else if m = 6 then 181 + leap else if m = 7 then 212 + leap else if m = 8 then 243 + leap
      else if m = 9 then 273 + leap else if m = 10 then 304 + leap else 334 + leap)"

definition MonthFromDay :: "int \<Rightarrow> int" where
  "MonthFromDay d =
     (let dwy = DayWithinYear d; leap = InLeapYear d
      in if dwy < 31 then 0 else if dwy < 59 + leap then 1 else if dwy < 90 + leap then 2
         else if dwy < 120 + leap then 3 else if dwy < 151 + leap then 4
         else if dwy < 181 + leap then 5 else if dwy < 212 + leap then 6
         else if dwy < 243 + leap then 7 else if dwy < 273 + leap then 8
         else if dwy < 304 + leap then 9 else if dwy < 334 + leap then 10 else 11)"

definition DateFromDay :: "int \<Rightarrow> int" where
  "DateFromDay d = DayWithinYear d - month_start (InLeapYear d) (MonthFromDay d) + 1"

text \<open>The length of month \<open>m\<close>; it serves to state the properties, the source does not
  use it.\<close>

definition DaysInMonth :: "int \<Rightarrow> int \<Rightarrow> int" where
  "DaysInMonth leap m =
     (if m = 1 then 28 + leap else if m = 3 \<or> m = 5 \<or> m = 8 \<or> m = 10 then 30 else 31)"

definition WeekDay :: "int \<Rightarrow> int" where
  "WeekDay d = (d + 4) mod 7"

definition MakeDay :: "int \<Rightarrow> int \<Rightarrow> int \<Rightarrow> int" where
  "MakeDay year month dt =
     (let ym = year + month div 12; mn = month mod 12
      in DayFromYear ym + month_start (LeapOfYear ym) mn + dt - 1)"

text \<open>
  \<^verbatim>\<open>new Date(year, month, date)\<close>: a year from \<open>0\<close> to \<open>99\<close> stands for \<open>1900 + year\<close>
  (ECMA-262, the Date constructor); month and date may lie outside their range and carry
  over (\<open>MakeDay\<close>).
\<close>

definition two_digit_year :: "int \<Rightarrow> int" where
  "two_digit_year y = (if 0 \<le> y \<and> y \<le> 99 then 1900 + y else y)"

definition new_Date :: "int \<Rightarrow> int \<Rightarrow> int \<Rightarrow> Date" where
  "new_Date yr mo dt = Date (MakeDay (two_digit_year yr) mo dt)"

definition getFullYear :: "Date \<Rightarrow> int" where "getFullYear d = YearFromDay (day_number d)"
definition getMonth :: "Date \<Rightarrow> int" where "getMonth d = MonthFromDay (day_number d)"
definition getDate :: "Date \<Rightarrow> int" where "getDate d = DateFromDay (day_number d)"
definition getDay :: "Date \<Rightarrow> int" where "getDay d = WeekDay (day_number d)"

subsection \<open>The source's date utilities\<close>

datatype WeekStart = Sun | Mon

record MonthDay =
  iso :: string
  inMonth :: bool

record MonthInfo =
  year :: int
  month :: int
  days :: "MonthDay list"

text \<open>\<^verbatim>\<open>pad = (n) => (n < 10 ? `0${n}` : `${n}`)\<close>\<close>

definition pad :: "int \<Rightarrow> string" where
  "pad n = (if n < 10 then CHR ''0'' # int_to_string n else int_to_string n)"

text \<open>
  \<^verbatim>\<open>parseYM(s)\<close> splits \<open>s\<close> at \<^verbatim>\<open>-\<close>, converts the parts with \<^verbatim>\<open>Number\<close> and builds
  \<^verbatim>\<open>new Date(y, m - 1, 1)\<close>. The model starts from the two numbers: a month string
  \<open>YYYY-MM\<close> is the pair of its year and its month (\<open>1\<close> to \<open>12\<close>).
\<close>

definition parseYM :: "int \<times> int \<Rightarrow> Date" where
  "parseYM s = (case s of (y, m) \<Rightarrow> new_Date y (m - 1) 1)"

definition endOfMonth :: "Date \<Rightarrow> Date" where
  "endOfMonth d = new_Date (getFullYear d) (getMonth d + 1) 0"

definition addDays :: "Date \<Rightarrow> int \<Rightarrow> Date" where
  "addDays d n = new_Date (getFullYear d) (getMonth d) (getDate d + n)"

text \<open>\<^verbatim>\<open>toISO\<close> prints the year as it is (no padding) and pads month and day to two
  digits.\<close>

definition toISO :: "Date \<Rightarrow> string" where
  "toISO d = int_to_string (getFullYear d) @ ''-'' @ pad (getMonth d + 1) @ ''-'' @ pad (getDate d)"

text \<open>In \<^verbatim>\<open>(day - target + 7) % 7\<close> the left operand is never negative, so the remainder is
  \<open>mod\<close>.\<close>

definition startOfWeek :: "Date \<Rightarrow> WeekStart \<Rightarrow> Date" where
  "startOfWeek dt weekStart =
     (let day = getDay dt;
          target = (if weekStart = Sun then 0 else 1);
          back = (day - target + 7) mod 7
      in addDays dt (- back))"

definition endOfWeek :: "Date \<Rightarrow> WeekStart \<Rightarrow> Date" where
  "endOfWeek dt weekStart =
     (let day = getDay dt;
          target = (if weekStart = Sun then 6 else 0);
          forward = (target - day + 7) mod 7
      in addDays dt forward)"

section \<open>The calendar\<close>

lemma div_floor_bounds:
  fixes x n :: int
  assumes "0 < n"
  shows "n * (x div n) \<le> x" and "x - n < n * (x div n)"
proof -
  have e: "x = n * (x div n) + x mod n" by simp
  have "0 \<le> x mod n" "x mod n < n" using assms by simp_all
  with e show "n * (x div n) \<le> x" "x - n < n * (x div n)" by linarith+
qed

lemma div_step:
  fixes x n :: int
  assumes "0 < n"
  shows "(x + 1) div n = x div n + (if (x + 1) mod n = 0 then 1 else 0)"
proof -
  define q where "q = x div n"
  define r where "r = x mod n"
  have x: "x = n * q + r" and r: "0 \<le> r" "r < n" using assms by (simp_all add: q_def r_def)
  show ?thesis
  proof (cases "r = n - 1")
    case True
    then have e: "x + 1 = n * (q + 1) + 0" using x by (simp add: algebra_simps)
    have "(x + 1) div n = q + 1" by (rule int_div_pos_eq[OF e]) (use assms in simp_all)
    moreover have "(x + 1) mod n = 0" by (rule int_mod_pos_eq[OF e]) (use assms in simp_all)
    ultimately show ?thesis by (simp add: q_def)
  next
    case False
    then have r1: "0 \<le> r + 1" "r + 1 < n" using r by simp_all
    have e: "x + 1 = n * q + (r + 1)" using x by simp
    have "(x + 1) div n = q" by (rule int_div_pos_eq[OF e r1])
    moreover have "(x + 1) mod n = r + 1" by (rule int_mod_pos_eq[OF e r1])
    ultimately show ?thesis using r by (simp add: q_def)
  qed
qed

lemma mod_shift:
  fixes y k n :: int
  assumes "k mod n = 0"
  shows "(y - k) mod n = 0 \<longleftrightarrow> y mod n = 0"
  using mod_diff_right_eq[of y k n] assms by simp

lemma leap_4: "((y::int) - 1968) mod 4 = 0 \<longleftrightarrow> y mod 4 = 0" by (rule mod_shift) simp
lemma leap_100: "((y::int) - 1900) mod 100 = 0 \<longleftrightarrow> y mod 100 = 0" by (rule mod_shift) simp
lemma leap_400: "((y::int) - 1600) mod 400 = 0 \<longleftrightarrow> y mod 400 = 0" by (rule mod_shift) simp

lemma mod_0_trans:
  fixes y m n :: int
  assumes "y mod n = 0" "m dvd n"
  shows "y mod m = 0"
  using assms by (meson dvd_trans mod_eq_0_iff_dvd)

lemma mod_100_4: "(y::int) mod 100 = 0 \<Longrightarrow> y mod 4 = 0" by (erule mod_0_trans) simp
lemma mod_400_100: "(y::int) mod 400 = 0 \<Longrightarrow> y mod 100 = 0" by (erule mod_0_trans) simp

lemma DayFromYear_Suc: "DayFromYear (y + 1) = DayFromYear y + DaysInYear y"
proof -
  have a: "(y + 1 - 1969) div 4 = (y - 1969) div 4 + (if y mod 4 = 0 then 1 else 0)"
    using div_step[of 4 "y - 1969"] leap_4[of y] by (simp add: algebra_simps)
  have b: "(y + 1 - 1901) div 100 = (y - 1901) div 100 + (if y mod 100 = 0 then 1 else 0)"
    using div_step[of 100 "y - 1901"] leap_100[of y] by (simp add: algebra_simps)
  have c: "(y + 1 - 1601) div 400 = (y - 1601) div 400 + (if y mod 400 = 0 then 1 else 0)"
    using div_step[of 400 "y - 1601"] leap_400[of y] by (simp add: algebra_simps)
  show ?thesis
    unfolding DayFromYear_def DaysInYear_def a b c
    using mod_100_4[of y] mod_400_100[of y] by auto
qed

lemma DaysInYear_cases: "DaysInYear y = 365 \<or> DaysInYear y = 366"
  by (simp add: DaysInYear_def)

lemma DayFromYear_add_nat: "DayFromYear y + 365 * int n \<le> DayFromYear (y + int n)"
proof (induction n)
  case 0
  then show ?case by simp
next
  case (Suc n)
  have "DayFromYear (y + int (Suc n)) = DayFromYear (y + int n) + DaysInYear (y + int n)"
    using DayFromYear_Suc[of "y + int n"] by (simp add: algebra_simps)
  with Suc DaysInYear_cases[of "y + int n"] show ?case by auto
qed

lemma DayFromYear_strict_mono:
  assumes "y < y'"
  shows "DayFromYear y + 365 * (y' - y) \<le> DayFromYear y'"
proof -
  from assms obtain n where "y' = y + int n" by (metis zless_iff_Suc_zadd)
  with DayFromYear_add_nat[of y n] show ?thesis by simp
qed

lemma DayFromYear_less: "y < y' \<Longrightarrow> DayFromYear y < DayFromYear y'"
  using DayFromYear_strict_mono[of y y'] by simp

lemma DayFromYear_le: "y \<le> y' \<Longrightarrow> DayFromYear y \<le> DayFromYear y'"
  using DayFromYear_less[of y y'] by (cases "y = y'") simp_all

lemma est_lower: "DayFromYear (1970 + (400 * d) div 146097 - 1) \<le> d"
proof -
  define q where "q = (400 * d) div 146097"
  define a where "a = q div 4"
  define b where "b = (q + 68) div 100"
  define c where "c = (q + 368) div 400"
  have q: "146097 * q \<le> 400 * d" unfolding q_def using div_floor_bounds[of 146097 "400 * d"] by simp
  have 1: "4 * a \<le> q" unfolding a_def using div_floor_bounds[of 4] by simp
  have 2: "q - 32 < 100 * b" unfolding b_def using div_floor_bounds[of 100 "q + 68"] by simp
  have 3: "400 * c \<le> q + 368" unfolding c_def using div_floor_bounds[of 400] by simp
  have "DayFromYear (1970 + q - 1) = 365 * q - 365 + a - b + c"
    unfolding DayFromYear_def a_def b_def c_def by (simp add: algebra_simps)
  with q 1 2 3 show ?thesis unfolding q_def[symmetric] by linarith
qed

lemma est_upper: "d < DayFromYear (1970 + (400 * d) div 146097 + 2)"
proof -
  define q where "q = (400 * d) div 146097"
  define a where "a = (q + 3) div 4"
  define b where "b = (q + 71) div 100"
  define c where "c = (q + 371) div 400"
  have q: "400 * d - 146097 < 146097 * q" unfolding q_def using div_floor_bounds[of 146097 "400 * d"] by simp
  have 1: "q - 1 < 4 * a" unfolding a_def using div_floor_bounds[of 4 "q + 3"] by simp
  have 2: "100 * b \<le> q + 71" unfolding b_def using div_floor_bounds[of 100] by simp
  have 3: "q - 29 < 400 * c" unfolding c_def using div_floor_bounds[of 400 "q + 371"] by simp
  have "DayFromYear (1970 + q + 2) = 365 * q + 730 + a - b + c"
    unfolding DayFromYear_def a_def b_def c_def by (simp add: algebra_simps)
  with q 1 2 3 show ?thesis unfolding q_def[symmetric] by linarith
qed

lemma YearFromDay_bounds:
  "DayFromYear (YearFromDay d) \<le> d \<and> d < DayFromYear (YearFromDay d + 1)"
proof -
  define y0 where "y0 = 1970 + (400 * d) div 146097"
  have lo: "DayFromYear (y0 - 1) \<le> d" using est_lower[of d] by (simp add: y0_def)
  have hi: "d < DayFromYear (y0 + 2)" using est_upper[of d] by (simp add: y0_def)
  have Y: "YearFromDay d = (if d < DayFromYear y0 then y0 - 1
     else if DayFromYear (y0 + 1) \<le> d then y0 + 1 else y0)"
    by (simp add: YearFromDay_def y0_def Let_def)
  show ?thesis
    unfolding Y using lo hi by (auto simp: algebra_simps)
qed

lemma YearFromDay_unique:
  assumes "DayFromYear y \<le> d" "d < DayFromYear (y + 1)"
  shows "YearFromDay d = y"
proof (rule ccontr)
  assume ne: "YearFromDay d \<noteq> y"
  note b = YearFromDay_bounds[of d]
  show False
  proof (cases "YearFromDay d < y")
    case True
    then have "DayFromYear (YearFromDay d + 1) \<le> DayFromYear y" by (intro DayFromYear_le) simp
    with b assms show False by simp
  next
    case False
    with ne have "y + 1 \<le> YearFromDay d" by simp
    then have "DayFromYear (y + 1) \<le> DayFromYear (YearFromDay d)" by (rule DayFromYear_le)
    with b assms show False by simp
  qed
qed

lemma LeapOfYear_cases: "LeapOfYear y = 0 \<and> DaysInYear y = 365 \<or> LeapOfYear y = 1 \<and> DaysInYear y = 366"
  using DaysInYear_cases[of y] by (auto simp: LeapOfYear_def)
lemma month_cases:
  fixes m :: int
  assumes "0 \<le> m" "m \<le> 11"
  shows "m = 0 \<or> m = 1 \<or> m = 2 \<or> m = 3 \<or> m = 4 \<or> m = 5 \<or> m = 6 \<or> m = 7 \<or> m = 8
       \<or> m = 9 \<or> m = 10 \<or> m = 11"
  using assms by arith

lemma month_start_within_year:
  assumes "0 \<le> m" "m \<le> 11" "0 \<le> k" "k < DaysInMonth (LeapOfYear y) m"
  shows "0 \<le> month_start (LeapOfYear y) m + k \<and> month_start (LeapOfYear y) m + k < DaysInYear y"
  using month_cases[OF assms(1,2)] assms(3,4) LeapOfYear_cases[of y]
  by (elim disjE conjE; simp add: month_start_def DaysInMonth_def)

lemma month_of_offset:
  fixes l :: int
  assumes "0 \<le> m" "m \<le> 11" "0 \<le> k" "k < DaysInMonth l m" "l = 0 \<or> l = 1"
  defines "dwy \<equiv> month_start l m + k" 
  shows "(if dwy < 31 then 0 else if dwy < 59 + l then 1 else if dwy < 90 + l then 2
         else if dwy < 120 + l then 3 else if dwy < 151 + l then 4
         else if dwy < 181 + l then 5 else if dwy < 212 + l then 6
         else if dwy < 243 + l then 7 else if dwy < 273 + l then 8
         else if dwy < 304 + l then 9 else if dwy < 334 + l then 10 else 11) = m"
  using month_cases[OF assms(1,2)] assms(3,4,5) unfolding dwy_def
  by (elim disjE; simp add: month_start_def DaysInMonth_def)

lemma civil_of_day:
  assumes "0 \<le> m" "m \<le> 11" "0 \<le> k" "k < DaysInMonth (LeapOfYear y) m"
  defines "d \<equiv> DayFromYear y + month_start (LeapOfYear y) m + k"
  shows "YearFromDay d = y" "MonthFromDay d = m" "DateFromDay d = k + 1"
proof -
  note w = month_start_within_year[OF assms(1-4)]
  show Y: "YearFromDay d = y"
    by (rule YearFromDay_unique) (use w in \<open>simp_all add: d_def DayFromYear_Suc\<close>)
  have dwy: "DayWithinYear d = month_start (LeapOfYear y) m + k"
    by (simp add: DayWithinYear_def Y) (simp add: d_def)
  have leap: "InLeapYear d = LeapOfYear y" by (simp add: InLeapYear_def Y)
  have l: "LeapOfYear y = 0 \<or> LeapOfYear y = 1" using LeapOfYear_cases[of y] by auto
  show M: "MonthFromDay d = m"
    unfolding MonthFromDay_def Let_def dwy leap
    by (rule month_of_offset[OF assms(1-4) l])
  show "DateFromDay d = k + 1"
    by (simp add: DateFromDay_def dwy leap M)
qed

text \<open>Every day lies in some month of its year.\<close>

lemma DayWithinYear_range: "0 \<le> DayWithinYear d \<and> DayWithinYear d < 365 + InLeapYear d"
  using YearFromDay_bounds[of d] LeapOfYear_cases[of "YearFromDay d"]
  by (auto simp: DayWithinYear_def InLeapYear_def DayFromYear_Suc)

lemma MonthFromDay_range: "0 \<le> MonthFromDay d \<and> MonthFromDay d \<le> 11"
  by (simp add: MonthFromDay_def Let_def)

lemma DateFromDay_range:
  "1 \<le> DateFromDay d \<and> DateFromDay d \<le> DaysInMonth (InLeapYear d) (MonthFromDay d)"
proof -
  have l: "InLeapYear d = 0 \<or> InLeapYear d = 1"
    using LeapOfYear_cases[of "YearFromDay d"] by (auto simp: InLeapYear_def)
  from DayWithinYear_range[of d] l show ?thesis
    unfolding DateFromDay_def MonthFromDay_def Let_def
    by (elim disjE; simp add: month_start_def DaysInMonth_def)
qed

lemma MakeDay_of_civil:
  "MakeDay (YearFromDay d) (MonthFromDay d) (DateFromDay d + n) = d + n"
proof -
  have "MonthFromDay d div 12 = 0" "MonthFromDay d mod 12 = MonthFromDay d"
    using MonthFromDay_range[of d] by simp_all
  then show ?thesis
    by (simp add: MakeDay_def Let_def DateFromDay_def DayWithinYear_def InLeapYear_def)
qed

section \<open>Month grids\<close>

text \<open>
  The loop of \<^verbatim>\<open>buildMonthDays\<close>,
  \<^verbatim>\<open>for (let d = new Date(gridStart); d <= gridEnd; d = addDays(d, 1)) result.push(...)\<close>:
  the list of the pushed days, in order. It terminates because \<open>addDays d 1\<close> is always a
  later day than \<open>d\<close> (\<open>addDays_ge\<close>).
\<close>

function buildMonthDays_loop :: "int \<Rightarrow> Date \<Rightarrow> Date \<Rightarrow> MonthDay list" where
  "buildMonthDays_loop mo gridEnd d =
     (if day_number d \<le> day_number gridEnd
      then \<lparr>iso = toISO d, inMonth = (getMonth d = mo)\<rparr> # buildMonthDays_loop mo gridEnd (addDays d 1)
      else [])"
  by pat_completeness auto

lemma month_start_leap_diff:
  fixes l l' :: int
  assumes "l = 0 \<or> l = 1" "l' = 0 \<or> l' = 1"
  shows "month_start l m - 1 \<le> month_start l' m"
  using assms by (auto simp: month_start_def)

lemma new_Date_of_civil:
  "day_number (new_Date (YearFromDay d) (MonthFromDay d) (DateFromDay d + n)) =
     (if 0 \<le> YearFromDay d \<and> YearFromDay d \<le> 99
      then MakeDay (1900 + YearFromDay d) (MonthFromDay d) (DateFromDay d + n)
      else d + n)"
  by (simp add: new_Date_def two_digit_year_def MakeDay_of_civil)

lemma MakeDay_two_digit_year:
  "d + n < MakeDay (1900 + YearFromDay d) (MonthFromDay d) (DateFromDay d + n)"
proof -
  let ?y = "YearFromDay d" and ?m = "MonthFromDay d"
  have md: "?m div 12 = 0" "?m mod 12 = ?m" using MonthFromDay_range[of d] by simp_all
  have 1: "DayFromYear ?y + 365 * 1900 \<le> DayFromYear (1900 + ?y)"
    using DayFromYear_strict_mono[of ?y "1900 + ?y"] by simp
  have 2: "month_start (LeapOfYear ?y) ?m - 1 \<le> month_start (LeapOfYear (1900 + ?y)) ?m"
    using LeapOfYear_cases[of ?y] LeapOfYear_cases[of "1900 + ?y"]
    by (intro month_start_leap_diff) auto
  have "MakeDay (1900 + ?y) ?m (DateFromDay d + n) =
          DayFromYear (1900 + ?y) + month_start (LeapOfYear (1900 + ?y)) ?m + (DateFromDay d + n) - 1"
    by (simp add: MakeDay_def Let_def md)
  moreover have "d + n = DayFromYear ?y + month_start (LeapOfYear ?y) ?m + (DateFromDay d + n) - 1"
    by (simp add: DateFromDay_def DayWithinYear_def InLeapYear_def)
  ultimately show ?thesis using 1 2 by linarith
qed

lemma addDays_day_number:
  "\<not> (0 \<le> getFullYear d \<and> getFullYear d \<le> 99) \<Longrightarrow> day_number (addDays d n) = day_number d + n"
  by (auto simp: addDays_def getFullYear_def getMonth_def getDate_def new_Date_of_civil)

lemma addDays_ge: "day_number d + n \<le> day_number (addDays d n)"
  using MakeDay_two_digit_year[of "day_number d" n]
  by (simp add: addDays_def getFullYear_def getMonth_def getDate_def new_Date_of_civil)

termination buildMonthDays_loop
proof (relation "measure (\<lambda>(mo, gridEnd, d). nat (day_number gridEnd - day_number d + 1))")
  show "wf (measure (\<lambda>(mo, gridEnd, d). nat (day_number gridEnd - day_number d + 1)))" by simp
next
  fix mo :: int and gridEnd d :: Date
  assume "day_number d \<le> day_number gridEnd"
  with addDays_ge[of d 1]
  show "((mo, gridEnd, addDays d 1), (mo, gridEnd, d))
          \<in> measure (\<lambda>(mo, gridEnd, d). nat (day_number gridEnd - day_number d + 1))"
    by simp
qed

declare buildMonthDays_loop.simps [simp del]

text \<open>\<^verbatim>\<open>buildMonthDays(year, month, weekStart)\<close>\<close>

definition buildMonthDays :: "int \<Rightarrow> int \<Rightarrow> WeekStart \<Rightarrow> MonthDay list" where
  "buildMonthDays yr mo weekStart =
     (let firstOfMonth = new_Date yr mo 1;
          lastOfMonth = endOfMonth firstOfMonth;
          gridStart = startOfWeek firstOfMonth weekStart;
          gridEnd = endOfWeek lastOfMonth weekStart
      in buildMonthDays_loop mo gridEnd gridStart)"

lemma civil_of_MakeDay:
  assumes "1 \<le> dt" "dt \<le> DaysInMonth (LeapOfYear (y + m div 12)) (m mod 12)"
  shows "YearFromDay (MakeDay y m dt) = y + m div 12"
    and "MonthFromDay (MakeDay y m dt) = m mod 12"
    and "DateFromDay (MakeDay y m dt) = dt"
proof -
  have r: "0 \<le> m mod 12" "m mod 12 \<le> 11" by simp_all
  have k: "0 \<le> dt - 1" "dt - 1 < DaysInMonth (LeapOfYear (y + m div 12)) (m mod 12)"
    using assms by simp_all
  have e: "MakeDay y m dt =
      DayFromYear (y + m div 12) + month_start (LeapOfYear (y + m div 12)) (m mod 12) + (dt - 1)"
    by (simp add: MakeDay_def Let_def)
  show "YearFromDay (MakeDay y m dt) = y + m div 12"
    unfolding e by (rule civil_of_day(1)[OF r k])
  show "MonthFromDay (MakeDay y m dt) = m mod 12"
    unfolding e by (rule civil_of_day(2)[OF r k])
  show "DateFromDay (MakeDay y m dt) = dt"
    unfolding e using civil_of_day(3)[OF r k] by simp
qed

lemma DaysInMonth_ge_28: "l = 0 \<or> l = 1 \<Longrightarrow> 28 \<le> DaysInMonth l m"
  by (auto simp: DaysInMonth_def)

lemma DaysInMonth_LeapOfYear_ge_28: "28 \<le> DaysInMonth (LeapOfYear y) m"
  using LeapOfYear_cases[of y] by (intro DaysInMonth_ge_28) auto

lemma new_Date_first:
  "getFullYear (new_Date y m 1) = two_digit_year y + m div 12"
  "getMonth (new_Date y m 1) = m mod 12"
  "getDate (new_Date y m 1) = 1"
  using DaysInMonth_LeapOfYear_ge_28[of "two_digit_year y + m div 12" "m mod 12"]
  by (simp_all add: new_Date_def getFullYear_def getMonth_def getDate_def civil_of_MakeDay)

text \<open>
  The loop of \<^verbatim>\<open>buildMonths\<close>: while the cursor's month is not after the end month, push
  the month's grid and move the cursor to \<^verbatim>\<open>new Date(y, m + 1, 1)\<close>.
\<close>

function buildMonths_loop :: "int \<Rightarrow> int \<Rightarrow> WeekStart \<Rightarrow> Date \<Rightarrow> MonthInfo list" where
  "buildMonths_loop endYear endMonth weekStart cursor =
     (if getFullYear cursor < endYear \<or> (getFullYear cursor = endYear \<and> getMonth cursor \<le> endMonth)
      then (let y = getFullYear cursor; m = getMonth cursor
            in \<lparr>year = y, month = m, days = buildMonthDays y m weekStart\<rparr>
               # buildMonths_loop endYear endMonth weekStart (new_Date y (m + 1) 1))
      else [])"
  by pat_completeness auto

lemma next_month_measure:
  assumes "getFullYear cursor \<le> endYear"
  shows "nat (12 * (endYear - getFullYear (new_Date (getFullYear cursor) (getMonth cursor + 1) 1)) + 12
               - getMonth (new_Date (getFullYear cursor) (getMonth cursor + 1) 1))
       < nat (12 * (endYear - getFullYear cursor) + 12 - getMonth cursor)"
proof -
  let ?y = "getFullYear cursor" and ?m = "getMonth cursor"
  have m: "0 \<le> ?m" "?m \<le> 11" using MonthFromDay_range[of "day_number cursor"] by (simp_all add: getMonth_def)
  have q: "?y \<le> two_digit_year ?y" by (simp add: two_digit_year_def)
  show ?thesis
  proof (cases "?m = 11")
    case True
    then have "(?m + 1) div 12 = 1" "(?m + 1) mod 12 = 0" by simp_all
    then show ?thesis using assms q True by (simp add: new_Date_first)
  next
    case False
    with m have "(?m + 1) div 12 = 0" "(?m + 1) mod 12 = ?m + 1" by simp_all
    then show ?thesis using assms q m by (simp add: new_Date_first)
  qed
qed

termination buildMonths_loop
proof (relation "measure (\<lambda>(endYear, endMonth, weekStart, cursor).
          nat (12 * (endYear - getFullYear cursor) + 12 - getMonth cursor))")
  show "wf (measure (\<lambda>(endYear, endMonth, weekStart, cursor).
          nat (12 * (endYear - getFullYear cursor) + 12 - getMonth cursor)))" by simp
next
  fix endYear endMonth :: int and weekStart :: WeekStart and cursor :: Date and x xa :: int
  assume "getFullYear cursor < endYear \<or> getFullYear cursor = endYear \<and> getMonth cursor \<le> endMonth"
    and "x = getFullYear cursor" and "xa = getMonth cursor"
  then have "getFullYear cursor \<le> endYear" by auto
  from next_month_measure[OF this] \<open>x = getFullYear cursor\<close> \<open>xa = getMonth cursor\<close>
  show "((endYear, endMonth, weekStart, new_Date x (xa + 1) 1), (endYear, endMonth, weekStart, cursor))
          \<in> measure (\<lambda>(endYear, endMonth, weekStart, cursor).
                 nat (12 * (endYear - getFullYear cursor) + 12 - getMonth cursor))"
    by simp
qed

declare buildMonths_loop.simps [simp del]

text \<open>
  \<^verbatim>\<open>buildMonths(startYM, endYM, weekStart)\<close>; \<open>endYM\<close> is \<open>None\<close> when the end is undefined
  (or the empty string), and then the clock's \<open>now\<close> gives the end month.
\<close>

definition buildMonths :: "int \<times> int \<Rightarrow> (int \<times> int) option \<Rightarrow> WeekStart \<Rightarrow> Date \<Rightarrow> MonthInfo list" where
  "buildMonths startYM endYM weekStart now =
     (let startMonth = parseYM startYM;
          endMonthDate = (case endYM of Some e \<Rightarrow> parseYM e | None \<Rightarrow> now);
          endYear = getFullYear endMonthDate;
          endMonth = getMonth endMonthDate;
          cursor = new_Date (getFullYear startMonth) (getMonth startMonth) 1
      in buildMonths_loop endYear endMonth weekStart cursor)"

text \<open>\<^verbatim>\<open>safeMonths\<close>: the month list, or one grid for the start month when the list is
  empty.\<close>

definition safeMonths :: "MonthInfo list \<Rightarrow> int \<times> int \<Rightarrow> WeekStart \<Rightarrow> MonthInfo list" where
  "safeMonths months start weekStart =
     (if length months > 0 then months
      else (let s = parseYM start
            in [\<lparr>year = getFullYear s, month = getMonth s,
                 days = buildMonthDays (getFullYear s) (getMonth s) weekStart\<rparr>]))"

subsection \<open>Notions for stating the properties\<close>

text \<open>
  None of the following is in the source. \<open>month_first y m\<close> is the day number of the first
  day of month \<open>m\<close> of year \<open>y\<close>; \<open>week_target\<close> is the weekday a week starts on;
  \<open>month_date i\<close> is the first day of the month with index \<open>i = 12 * y + m\<close>; and
  \<open>string_to_nat\<close> reads a decimal text back.
\<close>

definition month_first :: "int \<Rightarrow> int \<Rightarrow> int" where
  "month_first y m = DayFromYear y + month_start (LeapOfYear y) m"

definition week_target :: "WeekStart \<Rightarrow> int" where
  "week_target ws = (if ws = Sun then 0 else 1)"

definition month_date :: "int \<Rightarrow> Date" where
  "month_date i = Date (month_first (i div 12) (i mod 12))"

definition digit_value :: "char \<Rightarrow> nat" where
  "digit_value c = of_char c - 48"

definition string_to_nat :: "string \<Rightarrow> nat" where
  "string_to_nat s = foldl (\<lambda>a c. 10 * a + digit_value c) 0 s"

section \<open>Cells\<close>

text \<open>
  The props that decide the cells: \<^verbatim>\<open>start\<close>, \<^verbatim>\<open>data\<close>, \<^verbatim>\<open>range.end\<close>,
  \<^verbatim>\<open>range.weekStart\<close>, \<^verbatim>\<open>cell.baseColor\<close>, \<^verbatim>\<open>cell.emptyColor\<close>, and whether
  \<^verbatim>\<open>onDayClick\<close> is given.
\<close>

record Props =
  start :: "int \<times> int"
  data :: "DayValue list"
  range_end :: "(int \<times> int) option"
  range_weekStart :: "WeekStart option"
  cell_baseColor :: "string option"
  cell_emptyColor :: "string option"
  onDayClick :: bool

text \<open>
  What the callback of \<^verbatim>\<open>days.map\<close> computes for one day: the value and intensity of the
  cell, its background \<open>fill\<close>, whether it is \<open>interactive\<close>, and whether the rendered element
  gets the click handler (\<open>onClick\<close>; an out-of-month cell never does). The texts of the cell
  (day number, formatted value, aria label) are left out.
\<close>

record DayCell =
  cell_iso :: string
  cell_inMonth :: bool
  valueForCell :: "jsnum option"
  cell_intensity :: jsnum
  hasValue :: bool
  fill :: string
  interactive :: bool
  onClick :: bool

definition renderDay ::
  "(string \<rightharpoonup> jsnum option) \<Rightarrow> Scale \<Rightarrow> string \<Rightarrow> string \<Rightarrow> bool \<Rightarrow> MonthDay \<Rightarrow> DayCell" where
  "renderDay dvm intensityScale baseColor emptyColor hasOnDayClick md =
     (let dataValue = (case dvm (iso md) of None \<Rightarrow> None | Some v \<Rightarrow> v);
          valueForCell = (if inMonth md \<and> isFiniteNumber dataValue then dataValue else None);
          intens = (if valueForCell = None then Fin 0 else intensity intensityScale valueForCell);
          hasValue = (inMonth md \<and> valueForCell \<noteq> None);
          fill = (if hasValue then mixToWhite baseColor intens else emptyColor);
          interactive = (hasOnDayClick \<and> inMonth md)
      in \<lparr>cell_iso = iso md, cell_inMonth = inMonth md, valueForCell = valueForCell,
          cell_intensity = intens, hasValue = hasValue, fill = fill,
          interactive = interactive, onClick = (inMonth md \<and> interactive)\<rparr>)"

definition resolved_emptyColor :: "Props \<Rightarrow> string" where
  "resolved_emptyColor props = (case cell_emptyColor props of Some c \<Rightarrow> c | None \<Rightarrow> ''#FFECEC'')"

text \<open>
  The cells the grid shows: those of the month at \<open>activeMonthIndex\<close> of \<open>safeMonths\<close> (none
  when the index is out of range), each rendered by \<open>renderDay\<close>. The index is the component's
  state and \<open>now\<close> its clock. The render raises when \<open>buildScale\<close> does.
\<close>

definition CalendarHeatmap_cells :: "nat \<Rightarrow> Props \<Rightarrow> Date \<Rightarrow> nat \<Rightarrow> error + DayCell list" where
  "CalendarHeatmap_cells maxArguments props now activeMonthIndex =
     (let weekStart = (case range_weekStart props of Some w \<Rightarrow> w | None \<Rightarrow> Sun);
          baseColor = (case cell_baseColor props of Some c \<Rightarrow> c | None \<Rightarrow> ''#3b82f6'');
          emptyColor = resolved_emptyColor props;
          dvm = dateValueMap (data props)
      in case buildScale maxArguments (scaleValues (data props)) of
           Inl e \<Rightarrow> Inl e
         | Inr intensityScale \<Rightarrow>
             (let months = buildMonths (start props) (range_end props) weekStart now;
                  safe = safeMonths months (start props) weekStart;
                  ds = (case array_get safe activeMonthIndex of
                          Some activeMonth \<Rightarrow> days activeMonth | None \<Rightarrow> [])
              in Inr (map (renderDay dvm intensityScale baseColor emptyColor (onDayClick props)) ds)))"

text \<open>An example input: June 2025, which starts on a Sunday, no data, a click handler.\<close>

definition demo_props :: Props where
  "demo_props = \<lparr>start = (2025, 6), data = [], range_end = Some (2025, 6), range_weekStart = None,
                  cell_baseColor = None, cell_emptyColor = None, onDayClick = True\<rparr>"

section \<open>Rounding to doubles\<close>

text \<open>The exponent of a real is characterised by its two bounds, which also evaluates
  \<open>round_double\<close> on a concrete number (\<open>round_double_eval\<close>).\<close>

lemma binade_iff:
  assumes "x \<noteq> 0"
  shows "binade x = e \<longleftrightarrow> 2 powi e \<le> \<bar>x\<bar> \<and> \<bar>x\<bar> < 2 powi (e + 1)"
proof -
  have 1: "2 powr real_of_int e = 2 powi e"
    by (rule powr_real_of_int') simp_all
  have 2: "2 powr real_of_int (e + 1) = 2 powi (e + 1)"
    by (rule powr_real_of_int') simp_all
  have "0 < \<bar>x\<bar>" using assms by simp
  from floor_log_eq_powr_iff[OF this, of 2 e, unfolded 1 2] show ?thesis
    unfolding binade_def by simp
qed

lemma binade_bounds:
  "x \<noteq> 0 \<Longrightarrow> 2 powi binade x \<le> \<bar>x\<bar> \<and> \<bar>x\<bar> < 2 powi (binade x + 1)"
  using binade_iff[of x "binade x"] by simp

lemma binade_eqI:
  assumes "2 powi e \<le> \<bar>x\<bar>" "\<bar>x\<bar> < 2 powi (e + 1)"
  shows "binade x = e"
proof -
  have "0 < (2::real) powi e" by simp
  with assms(1) have "0 < \<bar>x\<bar>" by linarith
  then have "x \<noteq> 0" by simp
  with assms show ?thesis by (simp add: binade_iff)
qed

lemma binade_minus [simp]: "binade (- x) = binade x"
  by (simp add: binade_def)

lemma ulp_minus [simp]: "ulp (- x) = ulp x"
  by (simp add: ulp_def)





lemma rte_of_int [simp]: "roundTiesToEven (of_int k) = k"
  by (simp add: roundTiesToEven_def)





lemma ulp_neq_0 [simp]: "ulp x \<noteq> 0"
  by (simp add: ulp_def)

lemma abs_ulp [simp]: "\<bar>ulp x\<bar> = ulp x"
  by (simp add: ulp_def)

lemma two_powi_less_D: "(2::real) powi a < 2 powi b \<Longrightarrow> a < b"
proof (rule ccontr)
  assume l: "(2::real) powi a < 2 powi b" and "\<not> a < b"
  then have "b \<le> a" by simp
  then have "(2::real) powi b \<le> 2 powi a" by (intro power_int_increasing) simp_all
  with l show False by simp
qed




lemma round_double_eval:
  assumes "2 powi e \<le> \<bar>x\<bar>" "\<bar>x\<bar> < 2 powi (e + 1)"
  shows "round_double x =
     2 powi (max e (- 1022) - 52) * of_int (roundTiesToEven (x / 2 powi (max e (- 1022) - 52)))"
proof -
  have "binade x = e" by (rule binade_eqI[OF assms])
  moreover have "0 < (2::real) powi e" by simp
  with assms(1) have "0 < \<bar>x\<bar>" by linarith
  then have "x \<noteq> 0" by simp
  ultimately show ?thesis by (simp add: round_double_def ulp_def)
qed







text \<open>Rounding keeps every number \<open>m * 2\<^sup>k\<close> with \<open>|m| < 2\<^sup>5\<^sup>3\<close> and \<open>k \<ge> -1074\<close>, in particular
  every integer below \<open>2\<^sup>5\<^sup>3\<close> in size; and every double is a multiple of \<open>2\<^sup>-\<^sup>1\<^sup>0\<^sup>7\<^sup>4\<close>.\<close>

lemma round_double_exact:
  assumes "\<bar>m\<bar> < 2 ^ 53" "- 1074 \<le> k"
  shows "round_double (of_int m * 2 powi k) = of_int m * 2 powi k"
proof (cases "m = 0")
  case True
  then show ?thesis by (simp add: round_double_def)
next
  case False
  define x where "x = of_int m * (2::real) powi k"
  define E where "E = max (binade x) (- 1022)"
  define P where "P = (2::real) powi 53"
  have Pint: "real_of_int (2 ^ 53) = P" by (simp add: P_def)
  have x0: "x \<noteq> 0" using False by (simp add: x_def)
  have "real_of_int \<bar>m\<bar> < real_of_int (2 ^ 53)" using assms(1) by (simp only: of_int_less_iff)
  then have "real_of_int \<bar>m\<bar> < P" by (simp only: Pint)
  then have "real_of_int \<bar>m\<bar> * 2 powi k < P * 2 powi k"
    by (intro mult_strict_right_mono) simp_all
  moreover have "\<bar>x\<bar> = real_of_int \<bar>m\<bar> * 2 powi k" by (simp add: x_def abs_mult)
  moreover have "P * 2 powi k = 2 powi (53 + k)"
    unfolding P_def by (rule power_int_add[symmetric]) simp
  ultimately have "\<bar>x\<bar> < 2 powi (53 + k)" by simp
  with binade_bounds[OF x0] have "2 powi binade x < (2::real) powi (53 + k)" by linarith
  then have "binade x < 53 + k" by (rule two_powi_less_D)
  with assms(2) have d: "0 \<le> k - E + 52" by (simp add: E_def)
  have u: "ulp x = 2 powi (E - 52)" by (simp add: ulp_def E_def)
  have "2 powi k / (2::real) powi (E - 52) = 2 powi (k - (E - 52))"
    by (rule power_int_diff[symmetric]) simp
  also have "k - (E - 52) = int (nat (k - E + 52))" using d by simp
  also have "(2::real) powi int (nat (k - E + 52)) = 2 ^ nat (k - E + 52)"
    by (rule power_int_of_nat)
  finally have "of_int m * (2 powi k / (2::real) powi (E - 52)) = of_int m * 2 ^ nat (k - E + 52)"
    by simp
  moreover have "x / ulp x = x / 2 powi (E - 52)" by (simp only: u)
  ultimately have "x / ulp x = of_int m * 2 ^ nat (k - E + 52)"
    by (simp add: x_def)
  then have q: "x / ulp x = of_int (m * 2 ^ nat (k - E + 52))" by simp
  have "ulp x * of_int (roundTiesToEven (x / ulp x)) = ulp x * (x / ulp x)"
    unfolding q rte_of_int ..
  also have "\<dots> = x" by simp
  finally show ?thesis using x0 unfolding x_def[symmetric] by (simp add: round_double_def)
qed

lemma round_double_of_int: "\<bar>n\<bar> < 2 ^ 53 \<Longrightarrow> round_double (of_int n) = of_int n"
  using round_double_exact[of n 0] by simp


lemma overflow_bound_pos: "0 < overflow_bound"
  by (simp add: overflow_bound_def)

lemma two_p53_less_overflow: "real_of_int (2 ^ 53) < overflow_bound"
  by (simp add: overflow_bound_def)

lemma Number_of_0 [simp]: "Number_of 0 = Fin 0"
  using overflow_bound_pos by (simp add: Number_of_def round_double_def)

lemma Number_of_cases:
  "Number_of x = Fin (round_double x) \<and> \<bar>round_double x\<bar> < overflow_bound
 \<or> Number_of x = PosInf \<and> overflow_bound \<le> round_double x
 \<or> Number_of x = NegInf \<and> round_double x \<le> - overflow_bound"
  using overflow_bound_pos by (auto simp: Number_of_def Let_def abs_if)

lemma Number_of_not_NaN [simp]: "Number_of x \<noteq> NaN"
  using Number_of_cases[of x] by auto


lemma Number_of_bounded:
  assumes "\<bar>round_double x\<bar> < overflow_bound"
  shows "Number_of x = Fin (round_double x)"
  using assms Number_of_cases[of x] by auto

lemma Number_of_of_int:
  assumes "\<bar>n\<bar> < 2 ^ 53"
  shows "Number_of (of_int n) = Fin (of_int n)"
proof -
  have "real_of_int \<bar>n\<bar> < real_of_int (2 ^ 53)" using assms by (simp only: of_int_less_iff)
  also note two_p53_less_overflow
  finally have "\<bar>real_of_int n\<bar> < overflow_bound" by simp
  then have "\<bar>round_double (real_of_int n)\<bar> < overflow_bound"
    by (simp only: round_double_of_int[OF assms])
  then have "Number_of (of_int n) = Fin (round_double (of_int n))" by (rule Number_of_bounded)
  then show ?thesis by (simp only: round_double_of_int[OF assms])
qed









lemma round_double_0 [simp]: "round_double 0 = 0"
  by (simp add: round_double_def)


subsection \<open>Known values\<close>

text \<open>
  The model on well-known doubles: \<^verbatim>\<open>0.1 + 0.2\<close> is \<^verbatim>\<open>0.30000000000000004\<close> (a tie that
  goes to the even significand); the largest double \<open>2\<^sup>1\<^sup>0\<^sup>2\<^sup>4 - 2\<^sup>9\<^sup>7\<^sup>1\<close> is a double, and the
  midpoint between it and \<open>2\<^sup>1\<^sup>0\<^sup>2\<^sup>4\<close> is the least real that rounds to \<open>Infinity\<close> (see
  \<open>round_double_no_overflow\<close>); half of the least subnormal number rounds to \<open>0\<close> and one and
  a half of it to twice it.
\<close>

lemma tenth_plus_fifth:
  "js_add (Fin (3602879701896397 / 2 ^ 55)) (Fin (3602879701896397 / 2 ^ 54)) = Fin (5404319552844596 / 2 ^ 54)"
proof -
  have "round_double (3602879701896397 / 2 ^ 55 + 3602879701896397 / 2 ^ 54) = 5404319552844596 / 2 ^ 54"
    by (subst round_double_eval[of "- 2"]) (simp_all add: roundTiesToEven_def)
  then show ?thesis by (simp add: Number_of_def overflow_bound_def)
qed

lemma largest_double: "Number_of (2 ^ 1024 - 2 ^ 971) = Fin (2 ^ 1024 - 2 ^ 971)"
proof -
  have "round_double (2 ^ 1024 - 2 ^ 971) = 2 ^ 1024 - 2 ^ 971"
    by (subst round_double_eval[of 1023]) (simp_all add: roundTiesToEven_def)
  then show ?thesis by (simp add: Number_of_def overflow_bound_def)
qed

lemma overflow_from: "Number_of (2 ^ 1024 - 2 ^ 970) = PosInf"
proof -
  have "round_double (2 ^ 1024 - 2 ^ 970) = 2 ^ 1024"
    by (subst round_double_eval[of 1023]) (simp_all add: roundTiesToEven_def)
  then show ?thesis by (simp add: Number_of_def overflow_bound_def)
qed

lemma underflow_to_zero: "Number_of (1 / 2 ^ 1075) = Fin 0"
proof -
  have "round_double (1 / 2 ^ 1075) = 0"
    by (subst round_double_eval[of "- 1075"]) (simp_all add: roundTiesToEven_def)
  then show ?thesis by (simp add: Number_of_def overflow_bound_def)
qed

lemma subnormal_tie: "Number_of (3 / 2 ^ 1075) = Fin (2 / 2 ^ 1074)"
proof -
  have "round_double (3 / 2 ^ 1075) = 2 / 2 ^ 1074"
    by (subst round_double_eval[of "- 1074"]) (simp_all add: roundTiesToEven_def)
  then show ?thesis by (simp add: Number_of_def overflow_bound_def)
qed

subsection \<open>Order and rounding of the operations\<close>

lemma js_le_refl_iff [simp]: "js_le a a \<longleftrightarrow> a \<noteq> NaN"
  by (cases a) simp_all

lemma js_le_not_NaN: "js_le a b \<Longrightarrow> a \<noteq> NaN \<and> b \<noteq> NaN"
  by (cases a; cases b) simp_all










lemma Number_of_1 [simp]: "Number_of 1 = Fin 1"
  using Number_of_of_int[of 1] by simp


section \<open>Properties of the intensity scale\<close>

















section \<open>Properties of the cell size, the legend and the value index\<close>

text \<open>
  Claim C3, as the code has it. A dimension of the object form counts only when it is a
  finite number: a field that is absent or not finite is undefined. For finite non-zero
  \<open>a\<close>, \<open>b\<close>: a single finite number gives a square; both fields give the rectangle; one
  field alone (the other absent or not finite) gives the square of that field; everything
  else gives the square of \<open>44\<close>. (A field equal to \<open>0\<close> goes through the source's
  truthiness tests and is not covered here; see \<open>resolveCellDimensions_zero_width\<close>.)
\<close>

theorem resolveCellDimensions_rule:
  "(isFiniteNumber (Some n) \<longrightarrow>
      resolveCellDimensions (Some (SizeNumber n)) (Fin 44) = \<lparr>width = n, height = n\<rparr>)
 \<and> (a \<noteq> 0 \<and> b \<noteq> 0 \<longrightarrow>
      resolveCellDimensions (Some (SizeObject (Some (Fin a)) (Some (Fin b)))) (Fin 44)
        = \<lparr>width = Fin a, height = Fin b\<rparr>)
 \<and> (a \<noteq> 0 \<and> \<not> isFiniteNumber sh \<longrightarrow>
      resolveCellDimensions (Some (SizeObject (Some (Fin a)) sh)) (Fin 44)
        = \<lparr>width = Fin a, height = Fin a\<rparr>)
 \<and> (b \<noteq> 0 \<and> \<not> isFiniteNumber sw \<longrightarrow>
      resolveCellDimensions (Some (SizeObject sw (Some (Fin b)))) (Fin 44)
        = \<lparr>width = Fin b, height = Fin b\<rparr>)
 \<and> (\<not> isFiniteNumber sw \<and> \<not> isFiniteNumber sh \<longrightarrow>
      resolveCellDimensions (Some (SizeObject sw sh)) (Fin 44) = \<lparr>width = Fin 44, height = Fin 44\<rparr>)
 \<and> (\<not> isFiniteNumber (Some n) \<longrightarrow>
      resolveCellDimensions (Some (SizeNumber n)) (Fin 44) = \<lparr>width = Fin 44, height = Fin 44\<rparr>)
 \<and> resolveCellDimensions None (Fin 44) = \<lparr>width = Fin 44, height = Fin 44\<rparr>"
  by (auto simp: finiteOrUndefined_def split: option.splits)

theorem resolveCellDimensions_rule_witness:
  "resolveCellDimensions (Some (SizeNumber (Fin 30))) (Fin 44) = \<lparr>width = Fin 30, height = Fin 30\<rparr>
 \<and> resolveCellDimensions (Some (SizeObject (Some (Fin 52)) (Some (Fin 40)))) (Fin 44)
       = \<lparr>width = Fin 52, height = Fin 40\<rparr>
 \<and> resolveCellDimensions (Some (SizeObject (Some (Fin 52)) None)) (Fin 44)
       = \<lparr>width = Fin 52, height = Fin 52\<rparr>
 \<and> resolveCellDimensions (Some (SizeObject (Some NaN) (Some (Fin 40)))) (Fin 44)
       = \<lparr>width = Fin 40, height = Fin 40\<rparr>
 \<and> resolveCellDimensions (Some (SizeObject None (Some PosInf))) (Fin 44)
       = \<lparr>width = Fin 44, height = Fin 44\<rparr>
 \<and> resolveCellDimensions (Some (SizeNumber NaN)) (Fin 44) = \<lparr>width = Fin 44, height = Fin 44\<rparr>"
proof -
  have 1: "isFiniteNumber (Some (Fin 30))" by simp
  have 2: "(52::real) \<noteq> 0 \<and> (40::real) \<noteq> 0" by simp
  have 3: "(52::real) \<noteq> 0 \<and> \<not> isFiniteNumber None" by simp
  have 4: "(40::real) \<noteq> 0 \<and> \<not> isFiniteNumber (Some NaN)" by simp
  have 5: "\<not> isFiniteNumber None \<and> \<not> isFiniteNumber (Some PosInf)" by simp
  have 6: "\<not> isFiniteNumber (Some NaN)" by simp
  from 1 resolveCellDimensions_rule[of "Fin 30"]
  have "resolveCellDimensions (Some (SizeNumber (Fin 30))) (Fin 44) = \<lparr>width = Fin 30, height = Fin 30\<rparr>"
    by blast
  moreover from 2 resolveCellDimensions_rule[of _ 52 40]
  have "resolveCellDimensions (Some (SizeObject (Some (Fin 52)) (Some (Fin 40)))) (Fin 44)
       = \<lparr>width = Fin 52, height = Fin 40\<rparr>"
    by blast
  moreover from 3 resolveCellDimensions_rule[of _ 52 _ None]
  have "resolveCellDimensions (Some (SizeObject (Some (Fin 52)) None)) (Fin 44)
       = \<lparr>width = Fin 52, height = Fin 52\<rparr>"
    by blast
  moreover from 4 resolveCellDimensions_rule[of _ _ 40 _ "Some NaN"]
  have "resolveCellDimensions (Some (SizeObject (Some NaN) (Some (Fin 40)))) (Fin 44)
       = \<lparr>width = Fin 40, height = Fin 40\<rparr>"
    by blast
  moreover from 5 resolveCellDimensions_rule[of _ _ _ "Some PosInf" None]
  have "resolveCellDimensions (Some (SizeObject None (Some PosInf))) (Fin 44)
       = \<lparr>width = Fin 44, height = Fin 44\<rparr>"
    by blast
  moreover from 6 resolveCellDimensions_rule[of NaN]
  have "resolveCellDimensions (Some (SizeNumber NaN)) (Fin 44) = \<lparr>width = Fin 44, height = Fin 44\<rparr>"
    by blast
  ultimately show ?thesis by blast
qed

text \<open>The claim as written fails: an object that has both a width and a height, the width
  being \<open>Infinity\<close>, does not yield them as given but the square of the height.\<close>

theorem resolveCellDimensions_nonfinite_width:
  "resolveCellDimensions (Some (SizeObject (Some PosInf) (Some (Fin 10)))) (Fin 44)
     = \<lparr>width = Fin 10, height = Fin 10\<rparr>
 \<and> resolveCellDimensions (Some (SizeObject (Some PosInf) (Some (Fin 10)))) (Fin 44)
     \<noteq> \<lparr>width = PosInf, height = Fin 10\<rparr>"
  by (simp add: finiteOrUndefined_def)

text \<open>A width of \<open>0\<close> is falsy, so the object \<^verbatim>\<open>{ width: 0, height: 10 }\<close> resolves to the
  square of the height and \<^verbatim>\<open>{ width: 0 }\<close> to the default, while the number \<open>0\<close> resolves
  to the square of \<open>0\<close>.\<close>

lemma resolveCellDimensions_zero_width:
  "resolveCellDimensions (Some (SizeObject (Some (Fin 0)) (Some (Fin 10)))) (Fin 44)
     = \<lparr>width = Fin 10, height = Fin 10\<rparr>
 \<and> resolveCellDimensions (Some (SizeObject (Some (Fin 0)) None)) (Fin 44)
     = \<lparr>width = Fin 44, height = Fin 44\<rparr>
 \<and> resolveCellDimensions (Some (SizeNumber (Fin 0))) (Fin 44) = \<lparr>width = Fin 0, height = Fin 0\<rparr>"
  by (simp add: finiteOrUndefined_def)

lemma legendLabelsResolved_eq:
  "legendLabelsResolved (Some ls) = take 4 (ls @ drop (length ls) DEFAULT_LEGEND_LABELS)"
  by (cases ls)
     (auto simp: legendLabelsResolved_def LEGEND_STEP_COUNT_def slice_def Let_def DEFAULT_LEGEND_LABELS_def)

lemma legendLabelsResolved_None: "legendLabelsResolved None = DEFAULT_LEGEND_LABELS"
  by (simp add: legendLabelsResolved_def LEGEND_STEP_COUNT_def slice_def DEFAULT_LEGEND_LABELS_def)

lemma legendLabelsResolved_length: "length (legendLabelsResolved ls) = 4"
  by (cases ls)
     (auto simp: legendLabelsResolved_def LEGEND_STEP_COUNT_def slice_def Let_def DEFAULT_LEGEND_LABELS_def)

lemma upt_four: "[0..<4] = [0, 1, 2, 3::nat]"
  by (simp add: upt_rec)

text \<open>The quotients \<^verbatim>\<open>idx / 3\<close> as doubles.\<close>

lemma Number_of_third: "Number_of (1 / 3) = Fin (6004799503160661 / 18014398509481984)"
proof -
  have "round_double (1 / 3) = 6004799503160661 / 18014398509481984"
    by (subst round_double_eval[of "- 2"]) (simp_all add: roundTiesToEven_def)
  then show ?thesis by (simp add: Number_of_def overflow_bound_def)
qed

lemma Number_of_two_thirds: "Number_of (2 / 3) = Fin (6004799503160661 / 9007199254740992)"
proof -
  have "round_double (2 / 3) = 6004799503160661 / 9007199254740992"
    by (subst round_double_eval[of "- 1"]) (simp_all add: roundTiesToEven_def)
  then show ?thesis by (simp add: Number_of_def overflow_bound_def)
qed

lemma one_third: "js_div (Fin 1) (Fin 3) = Fin (6004799503160661 / 18014398509481984)"
  by (simp add: Number_of_third)

lemma two_thirds: "js_div (Fin 2) (Fin 3) = Fin (6004799503160661 / 9007199254740992)"
  by (simp add: Number_of_two_thirds)

lemma legendLevels_of_four:
  assumes "length r = 4"
  shows "legendLevels True r =
    map2 (\<lambda>l t. \<lparr>label = Some l, level_intensity = Fin t\<rparr>) r
      [0, 6004799503160661 / 18014398509481984, 6004799503160661 / 9007199254740992, 1]"
proof -
  from assms obtain l0 l1 l2 l3 where "r = [l0, l1, l2, l3]"
    by (cases r; simp) (metis (no_types) length_0_conv length_Suc_conv numeral_3_eq_3)
  then show ?thesis
    by (simp add: legendLevels_def LEGEND_STEP_COUNT_def upt_four array_get_def
          Number_of_third Number_of_two_thirds)
qed

text \<open>
  Claim C5, as the code has it. The resolved labels are always four: the first four of the
  caller's labels followed by the default labels from the index where the caller's ran
  out; a missing list and the empty list give the four default labels, and \<open>[A]\<close> gives
  \<open>[A, Medium, High, Very High]\<close>. The levels are built behind the guard
  \<^verbatim>\<open>if (!showLegend) return []\<close>: a legend that is shown has exactly four levels, at
  the intensities \<open>0\<close>, \<open>1/3\<close>, \<open>2/3\<close>, \<open>1\<close> as doubles (the quotients \<^verbatim>\<open>idx / 3\<close>, which
  for \<open>1/3\<close> and \<open>2/3\<close> are the nearest doubles, written out below), carrying the resolved
  labels in order; a legend that is not shown has none.
\<close>

theorem legend_four_levels:
  "legendLevels showLegend (legendLabelsResolved (Some ls)) =
     (if showLegend
      then map2 (\<lambda>l t. \<lparr>label = Some l, level_intensity = Fin t\<rparr>)
             (take 4 (ls @ drop (length ls) DEFAULT_LEGEND_LABELS))
             [0, 6004799503160661 / 18014398509481984, 6004799503160661 / 9007199254740992, 1]
      else [])
 \<and> length (legendLabelsResolved (Some ls)) = 4
 \<and> length (legendLevels True (legendLabelsResolved (Some ls))) = 4
 \<and> map level_intensity (legendLevels True (legendLabelsResolved (Some ls)))
     = [Fin 0, js_div (Fin 1) (Fin 3), js_div (Fin 2) (Fin 3), Fin 1]
 \<and> js_div (Fin 1) (Fin 3) = Fin (6004799503160661 / 18014398509481984)
 \<and> \<bar>6004799503160661 / 18014398509481984 - 1 / 3\<bar> \<le> (2::real) powi (- 55)
 \<and> js_div (Fin 2) (Fin 3) = Fin (6004799503160661 / 9007199254740992)
 \<and> \<bar>6004799503160661 / 9007199254740992 - 2 / 3\<bar> \<le> (2::real) powi (- 54)
 \<and> legendLevels True (legendLabelsResolved None) =
     map2 (\<lambda>l t. \<lparr>label = Some l, level_intensity = Fin t\<rparr>) DEFAULT_LEGEND_LABELS
       [0, 6004799503160661 / 18014398509481984, 6004799503160661 / 9007199254740992, 1]
 \<and> map label (legendLevels True (legendLabelsResolved (Some [''A''])))
     = [Some ''A'', Some ''Medium'', Some ''High'', Some ''Very High'']"
proof -
  have len: "length (legendLabelsResolved (Some ls)) = 4"
    by (rule legendLabelsResolved_length)
  then obtain l0 l1 l2 l3 where r: "legendLabelsResolved (Some ls) = [l0, l1, l2, l3]"
    by (cases "legendLabelsResolved (Some ls)"; simp)
       (metis (no_types) length_0_conv length_Suc_conv numeral_3_eq_3)
  have 0: "legendLevels False (legendLabelsResolved (Some ls)) = []"
    by (simp add: legendLevels_def)
  have 1: "legendLevels True (legendLabelsResolved (Some ls)) =
     map2 (\<lambda>l t. \<lparr>label = Some l, level_intensity = Fin t\<rparr>)
       (take 4 (ls @ drop (length ls) DEFAULT_LEGEND_LABELS))
       [0, 6004799503160661 / 18014398509481984, 6004799503160661 / 9007199254740992, 1]"
    using legendLevels_of_four[OF len] by (simp only: legendLabelsResolved_eq)
  have 2: "map level_intensity (legendLevels True (legendLabelsResolved (Some ls)))
     = [Fin 0, js_div (Fin 1) (Fin 3), js_div (Fin 2) (Fin 3), Fin 1]"
    using legendLevels_of_four[OF len] by (simp add: r Number_of_third Number_of_two_thirds)
  have 3: "legendLevels True (legendLabelsResolved None) =
     map2 (\<lambda>l t. \<lparr>label = Some l, level_intensity = Fin t\<rparr>) DEFAULT_LEGEND_LABELS
       [0, 6004799503160661 / 18014398509481984, 6004799503160661 / 9007199254740992, 1]"
    using legendLevels_of_four[OF legendLabelsResolved_length[of None]]
    by (simp only: legendLabelsResolved_None)
  have 4: "map label (legendLevels True (legendLabelsResolved (Some [''A''])))
     = [Some ''A'', Some ''Medium'', Some ''High'', Some ''Very High'']"
    using legendLevels_of_four[OF legendLabelsResolved_length[of "Some [''A'']"]]
    by (simp add: legendLabelsResolved_eq DEFAULT_LEGEND_LABELS_def)
  have 5: "length (legendLevels True (legendLabelsResolved (Some ls))) = 4"
    using legendLevels_of_four[OF len] by (simp add: r)
  have 6: "legendLevels showLegend (legendLabelsResolved (Some ls)) =
     (if showLegend
      then map2 (\<lambda>l t. \<lparr>label = Some l, level_intensity = Fin t\<rparr>)
             (take 4 (ls @ drop (length ls) DEFAULT_LEGEND_LABELS))
             [0, 6004799503160661 / 18014398509481984, 6004799503160661 / 9007199254740992, 1]
      else [])"
    using 0 1 by (cases showLegend) simp_all
  have 7: "\<bar>6004799503160661 / 18014398509481984 - 1 / 3\<bar> \<le> (2::real) powi (- 55)"
    "\<bar>6004799503160661 / 9007199254740992 - 2 / 3\<bar> \<le> (2::real) powi (- 54)"
    by simp_all
  from 6 len 5 2 one_third 7(1) two_thirds 7(2) 3 4 show ?thesis by (intro conjI)
qed

text \<open>The claim as written fails: with \<^verbatim>\<open>legend.show = false\<close> the builder returns no
  level for the labels \<open>[A]\<close>, although the resolved labels are four.\<close>

theorem legend_not_shown_no_levels:
  "legendLevels False (legendLabelsResolved (Some [''A''])) = []
 \<and> length (legendLevels False (legendLabelsResolved (Some [''A'']))) \<noteq> 4
 \<and> legendLabelsResolved (Some [''A'']) = [''A'', ''Medium'', ''High'', ''Very High'']"
  by (simp add: legendLevels_def legendLabelsResolved_eq DEFAULT_LEGEND_LABELS_def)

lemma dateValueMap_fold_other:
  "k \<notin> date ` set ys \<Longrightarrow> fold (\<lambda>dv m. m(date dv \<mapsto> normalizeValue (val dv))) ys m k = m k"
  by (induction ys arbitrary: m) auto

text \<open>
  Claim C10. The value index maps a date to the normalized value of the last entry that
  carries it: whatever precedes that entry (\<open>xs\<close>, which may hold the same date), if no
  later entry (\<open>ys\<close>) has the date, the lookup gives that entry's value when it is a finite
  number and \<open>null\<close> otherwise.
\<close>

theorem dateValueMap_last_write_wins:
  assumes "entries = xs @ e # ys" and "\<forall>y \<in> set ys. date y \<noteq> date e"
  shows "dateValueMap entries (date e) = Some (normalizeValue (val e))
       \<and> normalizeValue (val e) = (if isFiniteNumber (val e) then val e else None)"
proof -
  from assms(2) have "date e \<notin> date ` set ys" by auto
  then have "dateValueMap entries (date e) = Some (normalizeValue (val e))"
    unfolding dateValueMap_def assms(1) by (simp add: dateValueMap_fold_other)
  then show ?thesis by (simp add: normalizeValue_def)
qed

theorem dateValueMap_last_write_wins_witness:
  "dateValueMap [\<lparr>date = ''2025-02-10'', val = Some (Fin 1)\<rparr>,
                 \<lparr>date = ''2025-02-10'', val = Some (Fin 7)\<rparr>,
                 \<lparr>date = ''2025-02-11'', val = Some (Fin 3)\<rparr>] ''2025-02-10'' = Some (Some (Fin 7))
 \<and> dateValueMap [\<lparr>date = ''2025-02-10'', val = Some (Fin 1)\<rparr>,
                 \<lparr>date = ''2025-02-10'', val = Some NaN\<rparr>,
                 \<lparr>date = ''2025-02-11'', val = Some (Fin 3)\<rparr>] ''2025-02-10'' = Some None"
  using dateValueMap_last_write_wins[of
          "[\<lparr>date = ''2025-02-10'', val = Some (Fin 1)\<rparr>,
            \<lparr>date = ''2025-02-10'', val = Some (Fin 7)\<rparr>,
            \<lparr>date = ''2025-02-11'', val = Some (Fin 3)\<rparr>]"
          "[\<lparr>date = ''2025-02-10'', val = Some (Fin 1)\<rparr>]"
          "\<lparr>date = ''2025-02-10'', val = Some (Fin 7)\<rparr>"
          "[\<lparr>date = ''2025-02-11'', val = Some (Fin 3)\<rparr>]"]
        dateValueMap_last_write_wins[of
          "[\<lparr>date = ''2025-02-10'', val = Some (Fin 1)\<rparr>,
            \<lparr>date = ''2025-02-10'', val = Some NaN\<rparr>,
            \<lparr>date = ''2025-02-11'', val = Some (Fin 3)\<rparr>]"
          "[\<lparr>date = ''2025-02-10'', val = Some (Fin 1)\<rparr>]"
          "\<lparr>date = ''2025-02-10'', val = Some NaN\<rparr>"
          "[\<lparr>date = ''2025-02-11'', val = Some (Fin 3)\<rparr>]"]
  by simp

section \<open>Properties of the color mixer\<close>



























section \<open>Properties of the cells\<close>

lemma renderDay_no_data:
  "fill (renderDay Map.empty sc bc ec h md) = ec
 \<and> interactive (renderDay Map.empty sc bc ec h md) = (h \<and> inMonth md)
 \<and> cell_inMonth (renderDay Map.empty sc bc ec h md) = inMonth md"
  by (simp add: renderDay_def Let_def)

text \<open>
  Claim C2, as the code has it. When the data list is empty, the render does not raise,
  every cell of the shown month has the configured empty color as its fill, and a cell is
  interactive exactly when a day-click handler is given and the cell is in-month: the data
  plays no part in \<^verbatim>\<open>interactive = !!onDayClick && inMonth\<close>.
\<close>

theorem empty_data_cells:
  assumes "data props = []"
  shows "\<exists>cells. CalendarHeatmap_cells maxArguments props now i = Inr cells
       \<and> (\<forall>c \<in> set cells.
             fill c = resolved_emptyColor props
           \<and> interactive c = (onDayClick props \<and> cell_inMonth c))"
proof -
  have "dateValueMap (data props) = Map.empty" using assms by (simp add: dateValueMap_def)
  moreover have "\<exists>sc. buildScale maxArguments (scaleValues (data props)) = Inr sc"
    using assms by (simp add: scaleValues_def buildScale_def Let_def)
  ultimately show ?thesis
    unfolding CalendarHeatmap_cells_def Let_def resolved_emptyColor_def
    by (auto simp: renderDay_no_data)
qed

section \<open>Evaluating dates and grids\<close>

lemmas cal_eval = YearFromDay_def DayFromYear_def DaysInYear_def LeapOfYear_def InLeapYear_def
  DayWithinYear_def MonthFromDay_def DateFromDay_def month_start_def WeekDay_def MakeDay_def
  two_digit_year_def new_Date_def getFullYear_def getMonth_def getDate_def getDay_def
  addDays_def endOfMonth_def startOfWeek_def endOfWeek_def parseYM_def Let_def

lemmas text_eval = toISO_def pad_def int_to_string_def nat_to_string.simps digit_char_def

lemma grid_100_Sun: "buildMonthDays 100 0 Sun = [\<lparr>iso = ''99-12-27'', inMonth = False\<rparr>]"
proof -
  have f: "new_Date 100 0 1 = Date (- 683003)" by (simp add: cal_eval)
  have l: "endOfMonth (Date (- 683003)) = Date (- 682973)" by (simp add: cal_eval)
  have gs: "startOfWeek (Date (- 683003)) Sun = Date (- 683008)" by (simp add: cal_eval)
  have ge: "endOfWeek (Date (- 682973)) Sun = Date (- 682967)" by (simp add: cal_eval)
  have nx: "addDays (Date (- 683008)) 1 = Date 10953" by (simp add: cal_eval)
  have m: "getMonth (Date (- 683008)) = 11" by (simp add: cal_eval)
  have i: "toISO (Date (- 683008)) = ''99-12-27''" by (simp add: cal_eval text_eval)
  have "buildMonthDays 100 0 Sun = buildMonthDays_loop 0 (Date (- 682967)) (Date (- 683008))"
    by (simp add: buildMonthDays_def f l gs ge)
  also have "\<dots> = \<lparr>iso = ''99-12-27'', inMonth = False\<rparr> # buildMonthDays_loop 0 (Date (- 682967)) (Date 10953)"
    by (subst buildMonthDays_loop.simps) (simp add: nx m i)
  also have "buildMonthDays_loop 0 (Date (- 682967)) (Date 10953) = []"
    by (subst buildMonthDays_loop.simps) simp
  finally show ?thesis .
qed

lemma demo_cells:
  "\<exists>sc rest. CalendarHeatmap_cells 65535 demo_props (Date 0) 0 =
     Inr (renderDay Map.empty sc ''#3b82f6'' ''#FFECEC'' True \<lparr>iso = ''2025-06-01'', inMonth = True\<rparr> # rest)"
proof -
  have p: "parseYM (2025, 6) = Date 20240" by (simp add: cal_eval)
  have y: "getFullYear (Date 20240) = 2025" "getMonth (Date 20240) = 5" by (simp_all add: cal_eval)
  have c: "new_Date 2025 5 1 = Date 20240" by (simp add: cal_eval)
  have n: "new_Date 2025 6 1 = Date 20270" by (simp add: cal_eval)
  have yn: "getFullYear (Date 20270) = 2025" "getMonth (Date 20270) = 6" by (simp_all add: cal_eval)
  have "buildMonths (2025, 6) (Some (2025, 6)) Sun (Date 0) = buildMonths_loop 2025 5 Sun (Date 20240)"
    by (simp add: buildMonths_def p y c)
  also have "\<dots> = \<lparr>year = 2025, month = 5, days = buildMonthDays 2025 5 Sun\<rparr> # buildMonths_loop 2025 5 Sun (Date 20270)"
    by (subst buildMonths_loop.simps) (simp add: y n)
  also have "buildMonths_loop 2025 5 Sun (Date 20270) = []"
    by (subst buildMonths_loop.simps) (simp add: yn)
  finally have b: "buildMonths (2025, 6) (Some (2025, 6)) Sun (Date 0)
     = [\<lparr>year = 2025, month = 5, days = buildMonthDays 2025 5 Sun\<rparr>]" .
  have l: "endOfMonth (Date 20240) = Date 20269" by (simp add: cal_eval)
  have gs: "startOfWeek (Date 20240) Sun = Date 20240" by (simp add: cal_eval)
  have ge: "endOfWeek (Date 20269) Sun = Date 20274" by (simp add: cal_eval)
  have i: "toISO (Date 20240) = ''2025-06-01''" by (simp add: cal_eval text_eval)
  have "buildMonthDays 2025 5 Sun = buildMonthDays_loop 5 (Date 20274) (Date 20240)"
    by (simp add: buildMonthDays_def c l gs ge)
  also have "\<dots> = \<lparr>iso = ''2025-06-01'', inMonth = True\<rparr> # buildMonthDays_loop 5 (Date 20274) (addDays (Date 20240) 1)"
    by (subst buildMonthDays_loop.simps) (simp add: y i)
  finally have g: "buildMonthDays 2025 5 Sun =
      \<lparr>iso = ''2025-06-01'', inMonth = True\<rparr> # buildMonthDays_loop 5 (Date 20274) (addDays (Date 20240) 1)" .
  obtain sc where sc: "buildScale 65535 [] = Inr sc" by (simp add: buildScale_def Let_def)
  show ?thesis
    by (intro exI[of _ sc])
       (simp add: CalendarHeatmap_cells_def demo_props_def b safeMonths_def array_get_def g
          dateValueMap_def scaleValues_def resolved_emptyColor_def sc)
qed

theorem empty_data_cells_witness:
  "data demo_props = []
 \<and> (\<exists>cells. CalendarHeatmap_cells 65535 demo_props (Date 0) 0 = Inr cells
       \<and> cell_iso (hd cells) = ''2025-06-01''
       \<and> fill (hd cells) = ''#FFECEC''
       \<and> interactive (hd cells) = (onDayClick demo_props \<and> cell_inMonth (hd cells)))"
proof -
  have d: "data demo_props = []" by (simp add: demo_props_def)
  from empty_data_cells[OF d, of 65535 "Date 0" 0] obtain cells where
    c: "CalendarHeatmap_cells 65535 demo_props (Date 0) 0 = Inr cells"
    "\<forall>c \<in> set cells. fill c = resolved_emptyColor demo_props
        \<and> interactive c = (onDayClick demo_props \<and> cell_inMonth c)"
    by blast
  from demo_cells c(1) obtain sc rest where
    r: "cells = renderDay Map.empty sc ''#3b82f6'' ''#FFECEC'' True \<lparr>iso = ''2025-06-01'', inMonth = True\<rparr> # rest"
    by auto
  then have "hd cells \<in> set cells" by simp
  with c(2) have "fill (hd cells) = resolved_emptyColor demo_props
        \<and> interactive (hd cells) = (onDayClick demo_props \<and> cell_inMonth (hd cells))"
    by blast
  moreover have "cell_iso (hd cells) = ''2025-06-01''" by (simp add: r renderDay_def)
  moreover have "resolved_emptyColor demo_props = ''#FFECEC''"
    by (simp add: resolved_emptyColor_def demo_props_def)
  ultimately show ?thesis using d c(1) by auto
qed

text \<open>The claim as written fails: with no data and a click handler, the first cell of the
  grid, that of 1 June 2025, is interactive and carries the handler.\<close>

theorem empty_data_cell_interactive:
  "data demo_props = []
 \<and> onDayClick demo_props
 \<and> map_sum id hd (CalendarHeatmap_cells 65535 demo_props (Date 0) 0) =
     Inr \<lparr>cell_iso = ''2025-06-01'', cell_inMonth = True, valueForCell = None,
          cell_intensity = Fin 0, hasValue = False, fill = ''#FFECEC'',
          interactive = True, onClick = True\<rparr>"
proof -
  from demo_cells obtain sc rest where
    "CalendarHeatmap_cells 65535 demo_props (Date 0) 0 =
      Inr (renderDay Map.empty sc ''#3b82f6'' ''#FFECEC'' True \<lparr>iso = ''2025-06-01'', inMonth = True\<rparr> # rest)"
    by blast
  then show ?thesis by (simp add: renderDay_def demo_props_def)
qed

section \<open>Properties of the month grids\<close>

text \<open>For month strings \<open>YYYY-MM\<close> of years from 100 on, the months the Dates denote are the
  months written.\<close>

lemma parseYM_plain:
  assumes "\<not> (0 \<le> y \<and> y \<le> 99)" "1 \<le> m" "m \<le> 12"
  shows "getFullYear (parseYM (y, m)) = y" "getMonth (parseYM (y, m)) = m - 1"
proof -
  have "(m - 1) div 12 = 0" "(m - 1) mod 12 = m - 1" using assms(2,3) by simp_all
  then show "getFullYear (parseYM (y, m)) = y" "getMonth (parseYM (y, m)) = m - 1"
    using assms(1) by (simp_all add: parseYM_def new_Date_first two_digit_year_def)
qed

lemma two_digit_year_idem: "two_digit_year (two_digit_year y) = two_digit_year y"
  by (simp add: two_digit_year_def)

lemma two_digit_year_not_two_digit: "\<not> (0 \<le> two_digit_year y \<and> two_digit_year y \<le> 99)"
  by (simp add: two_digit_year_def)

text \<open>The loop over a range of days none of which lies in the years \<open>0\<close> to \<open>99\<close>
  is the list of these days.\<close>

lemma buildMonthDays_loop_upto:
  assumes "\<forall>d. a \<le> d \<and> d \<le> b \<longrightarrow> \<not> (0 \<le> YearFromDay d \<and> YearFromDay d \<le> 99)"
  shows "buildMonthDays_loop mo (Date b) (Date a) =
           map (\<lambda>d. \<lparr>iso = toISO (Date d), inMonth = (MonthFromDay d = mo)\<rparr>) [a..b]"
  using assms
proof (induction "nat (b + 1 - a)" arbitrary: a)
  case 0
  then have "b < a" by simp
  then show ?case by (subst buildMonthDays_loop.simps) simp
next
  case (Suc n)
  then have le: "a \<le> b" by simp
  with Suc.prems have "\<not> (0 \<le> getFullYear (Date a) \<and> getFullYear (Date a) \<le> 99)"
    by (simp add: getFullYear_def)
  then have "day_number (addDays (Date a) 1) = a + 1"
    using addDays_day_number[of "Date a" 1] by simp
  then have nx: "addDays (Date a) 1 = Date (a + 1)"
    by (cases "addDays (Date a) 1") simp
  have "n = nat (b + 1 - (a + 1))" using Suc.hyps(2) by simp
  moreover have "\<forall>d. a + 1 \<le> d \<and> d \<le> b \<longrightarrow> \<not> (0 \<le> YearFromDay d \<and> YearFromDay d \<le> 99)"
    using Suc.prems by simp
  ultimately have IH: "buildMonthDays_loop mo (Date b) (Date (a + 1)) =
           map (\<lambda>d. \<lparr>iso = toISO (Date d), inMonth = (MonthFromDay d = mo)\<rparr>) [a + 1..b]"
    by (rule Suc.hyps(1))
  show ?case
    by (subst buildMonthDays_loop.simps) (simp add: le nx IH upto_rec1[OF le] getMonth_def)
qed

lemma MakeDay_month_first:
  "0 \<le> m \<Longrightarrow> m \<le> 11 \<Longrightarrow> MakeDay y m dt = month_first y m + dt - 1"
  by (simp add: MakeDay_def month_first_def)

lemma next_month_first:
  assumes "0 \<le> m" "m \<le> 11"
  shows "MakeDay y (m + 1) dt = month_first y m + DaysInMonth (LeapOfYear y) m + dt - 1"
proof (cases "m = 11")
  case True
  then have "(m + 1) div 12 = 1" "(m + 1) mod 12 = 0" by simp_all
  then show ?thesis
    using True LeapOfYear_cases[of y]
    by (auto simp: MakeDay_def month_first_def DayFromYear_Suc month_start_def DaysInMonth_def)
next
  case False
  with assms have "(m + 1) div 12 = 0" "(m + 1) mod 12 = m + 1" by simp_all
  then show ?thesis
    using month_cases[OF assms] False
    by (elim disjE; simp add: MakeDay_def month_first_def month_start_def DaysInMonth_def)
qed

lemma prev_month_first:
  assumes "0 \<le> m" "m \<le> 11"
  shows "month_first y m =
           month_first (if m = 0 then y - 1 else y) (if m = 0 then 11 else m - 1)
           + DaysInMonth (LeapOfYear (if m = 0 then y - 1 else y)) (if m = 0 then 11 else m - 1)"
proof (cases "m = 0")
  case True
  then show ?thesis
    using LeapOfYear_cases[of "y - 1"] DayFromYear_Suc[of "y - 1"]
    by (auto simp: month_first_def month_start_def DaysInMonth_def)
next
  case False
  then show ?thesis
    using month_cases[OF assms(1,2)]
    by (elim disjE; simp add: month_first_def month_start_def DaysInMonth_def)
qed

text \<open>The civil date of the days of a month, and the month of the six days before and
  after it.\<close>

lemma civil_in_month:
  assumes "0 \<le> m" "m \<le> 11" "month_first y m \<le> d" "d < month_first y m + DaysInMonth (LeapOfYear y) m"
  shows "YearFromDay d = y" "MonthFromDay d = m" "DateFromDay d = d - month_first y m + 1"
proof -
  have k: "0 \<le> d - month_first y m" "d - month_first y m < DaysInMonth (LeapOfYear y) m"
    using assms(3,4) by simp_all
  have e: "d = DayFromYear y + month_start (LeapOfYear y) m + (d - month_first y m)"
    by (simp add: month_first_def)
  show "YearFromDay d = y" by (subst e) (rule civil_of_day(1)[OF assms(1,2) k])
  show "MonthFromDay d = m" by (subst e) (rule civil_of_day(2)[OF assms(1,2) k])
  show "DateFromDay d = d - month_first y m + 1"
    using civil_of_day(3)[OF assms(1,2) k] e by simp
qed

lemma civil_before_month:
  assumes "0 \<le> m" "m \<le> 11" "month_first y m - 6 \<le> d" "d < month_first y m"
  shows "MonthFromDay d \<noteq> m" "YearFromDay d = y \<or> YearFromDay d = y - 1"
proof -
  let ?y' = "if m = 0 then y - 1 else y" and ?m' = "if m = 0 then 11 else m - 1"
  have m': "0 \<le> ?m'" "?m' \<le> 11" "?m' \<noteq> m" using assms(1,2) by auto
  note p = prev_month_first[OF assms(1,2), of y]
  have n: "28 \<le> DaysInMonth (LeapOfYear ?y') ?m'" by (rule DaysInMonth_LeapOfYear_ge_28)
  have r: "month_first ?y' ?m' \<le> d" "d < month_first ?y' ?m' + DaysInMonth (LeapOfYear ?y') ?m'"
    using assms(3,4) p n by linarith+
  from civil_in_month(2)[OF m'(1,2) r] m'(3) show "MonthFromDay d \<noteq> m" by simp
  from civil_in_month(1)[OF m'(1,2) r] show "YearFromDay d = y \<or> YearFromDay d = y - 1"
    by (auto split: if_splits)
qed

lemma civil_after_month:
  assumes "0 \<le> m" "m \<le> 11" "month_first y m + DaysInMonth (LeapOfYear y) m \<le> d"
    "d < month_first y m + DaysInMonth (LeapOfYear y) m + 6"
  shows "MonthFromDay d \<noteq> m" "YearFromDay d = y \<or> YearFromDay d = y + 1"
proof -
  let ?y' = "y + (m + 1) div 12" and ?m' = "(m + 1) mod 12"
  have m': "0 \<le> ?m'" "?m' \<le> 11" by simp_all
  have ne: "?m' \<noteq> m" using month_cases[OF assms(1,2)] by (elim disjE; simp)
  have f: "month_first ?y' ?m' = month_first y m + DaysInMonth (LeapOfYear y) m"
    using next_month_first[OF assms(1,2), of y 1] by (simp add: MakeDay_def month_first_def Let_def)
  have n: "28 \<le> DaysInMonth (LeapOfYear ?y') ?m'" by (rule DaysInMonth_LeapOfYear_ge_28)
  have r: "month_first ?y' ?m' \<le> d" "d < month_first ?y' ?m' + DaysInMonth (LeapOfYear ?y') ?m'"
    using assms(3,4) f n by linarith+
  from civil_in_month(2)[OF m' r] ne show "MonthFromDay d \<noteq> m" by simp
  have "(m + 1) div 12 = 0 \<or> (m + 1) div 12 = 1"
    using month_cases[OF assms(1,2)] by (elim disjE; simp)
  with civil_in_month(1)[OF m' r] show "YearFromDay d = y \<or> YearFromDay d = y + 1" by auto
qed

lemma Date_eqI: "day_number d = n \<Longrightarrow> d = Date n"
  by (cases d) simp

lemma weekday_cases:
  fixes x :: int
  obtains q w where "x = 7 * q + w" "w = 0 \<or> w = 1 \<or> w = 2 \<or> w = 3 \<or> w = 4 \<or> w = 5 \<or> w = 6"
proof -
  have "0 \<le> x mod 7" "x mod 7 < 7" by simp_all
  then have "x mod 7 = 0 \<or> x mod 7 = 1 \<or> x mod 7 = 2 \<or> x mod 7 = 3 \<or> x mod 7 = 4
      \<or> x mod 7 = 5 \<or> x mod 7 = 6" by arith
  moreover have "x = 7 * (x div 7) + x mod 7" by simp
  ultimately show ?thesis by (rule that[rotated])
qed

lemma week_back:
  fixes f t :: int
  assumes "t = 0 \<or> t = 1"
  defines "back \<equiv> ((f + 4) mod 7 - t + 7) mod 7"
  shows "0 \<le> back \<and> back \<le> 6 \<and> (f - back + 4) mod 7 = t"
proof -
  obtain q w where x: "f + 4 = 7 * q + w"
    and w: "w = 0 \<or> w = 1 \<or> w = 2 \<or> w = 3 \<or> w = 4 \<or> w = 5 \<or> w = 6"
    by (rule weekday_cases)
  have b: "back = (w - t + 7) mod 7" using w by (elim disjE; simp add: back_def x)
  have e: "f - back + 4 = 7 * q + (w - back)" using x by simp
  have m: "(f - back + 4) mod 7 = (w - back) mod 7" unfolding e by simp
  from w assms(1) show ?thesis
    unfolding m by (elim disjE; simp add: b)
qed

lemma week_forward:
  fixes l t :: int
  assumes "t = 0 \<or> t = 1"
  defines "fwd \<equiv> ((if t = 0 then 6 else 0) - (l + 4) mod 7 + 7) mod 7"
  shows "0 \<le> fwd \<and> fwd \<le> 6 \<and> (l + fwd + 4) mod 7 = (t + 6) mod 7"
proof -
  obtain q w where x: "l + 4 = 7 * q + w"
    and w: "w = 0 \<or> w = 1 \<or> w = 2 \<or> w = 3 \<or> w = 4 \<or> w = 5 \<or> w = 6"
    by (rule weekday_cases)
  have b: "fwd = ((if t = 0 then 6 else 0) - w + 7) mod 7" using w by (elim disjE; simp add: fwd_def x)
  have e: "l + fwd + 4 = 7 * q + (w + fwd)" using x by simp
  have m: "(l + fwd + 4) mod 7 = (w + fwd) mod 7" unfolding e by simp
  from w assms(1) show ?thesis
    unfolding m by (elim disjE; simp add: b)
qed

lemma full_weeks:
  fixes gs ge t :: int
  assumes "t = 0 \<or> t = 1" "(gs + 4) mod 7 = t" "(ge + 4) mod 7 = (t + 6) mod 7" "gs \<le> ge"
  shows "nat (ge - gs + 1) mod 7 = 0"
proof -
  have q: "gs + 4 = 7 * ((gs + 4) div 7) + t"
    using assms(2) mult_div_mod_eq[of 7 "gs + 4"] by simp
  have r: "ge + 4 = 7 * ((ge + 4) div 7) + (t + 6) mod 7"
    using assms(3) mult_div_mod_eq[of 7 "ge + 4"] by simp
  have "\<exists>k. ge - gs + 1 = 7 * k"
  proof (rule disjE[OF assms(1)])
    assume "t = 0"
    with q r have "ge - gs + 1 = 7 * ((ge + 4) div 7 - (gs + 4) div 7 + 1)" by simp
    then show ?thesis by blast
  next
    assume "t = 1"
    with q r have "ge - gs + 1 = 7 * ((ge + 4) div 7 - (gs + 4) div 7)" by simp
    then show ?thesis by blast
  qed
  then obtain k where k: "ge - gs + 1 = 7 * k" by blast
  with assms(4) have "0 \<le> k" by simp
  then have "nat (7 * k) = 7 * nat k" by (simp add: nat_mult_distrib)
  then show ?thesis by (simp add: k)
qed

lemma week_target_cases: "week_target ws = 0 \<or> week_target ws = 1"
  by (simp add: week_target_def)

text \<open>
  The grid of a month of a year other than \<open>-1\<close> and \<open>100\<close>: the days from the week start on
  or before the first of the month to the day before the week start after the last of the
  month, the days of the month marked in-month and the others not.
\<close>

lemma buildMonthDays_grid:
  fixes y m :: int and ws :: WeekStart
  assumes m: "0 \<le> m" "m \<le> 11" and y: "y \<noteq> - 1" "y \<noteq> 100"
  defines "Y \<equiv> two_digit_year y"
  defines "f \<equiv> month_first Y m"
  defines "n \<equiv> DaysInMonth (LeapOfYear Y) m"
  defines "gs \<equiv> f - (WeekDay f - week_target ws + 7) mod 7"
  defines "ge \<equiv> f + n - 1 + ((if ws = Sun then 6 else 0) - WeekDay (f + n - 1) + 7) mod 7"
  shows "buildMonthDays y m ws =
           map (\<lambda>d. \<lparr>iso = toISO (Date d), inMonth = (f \<le> d \<and> d < f + n)\<rparr>) [gs..ge]"
    and "f - 6 \<le> gs \<and> gs \<le> f \<and> f + n - 1 \<le> ge \<and> ge \<le> f + n + 5"
    and "WeekDay gs = week_target ws \<and> WeekDay ge = (week_target ws + 6) mod 7"
    and "length (buildMonthDays y m ws) mod 7 = 0"
proof -
  note t = week_target_cases[of ws]
  have n28: "28 \<le> n" unfolding n_def by (rule DaysInMonth_LeapOfYear_ge_28)
  have Yq: "\<not> (0 \<le> Y \<and> Y \<le> 99)" unfolding Y_def by (rule two_digit_year_not_two_digit)
  have Yr: "Y \<le> - 2 \<or> 101 \<le> Y" using y by (auto simp: Y_def two_digit_year_def)
  have bk: "0 \<le> f - gs \<and> f - gs \<le> 6 \<and> (gs + 4) mod 7 = week_target ws"
    using week_back[OF t, of f] by (simp add: gs_def WeekDay_def)
  have tt: "(if ws = Sun then 6 else 0) = (if week_target ws = 0 then (6::int) else 0)"
    by (simp add: week_target_def)
  have fwd: "0 \<le> ge - (f + n - 1) \<and> ge - (f + n - 1) \<le> 6
      \<and> (ge + 4) mod 7 = (week_target ws + 6) mod 7"
    using week_forward[OF t, of "f + n - 1"] by (simp add: ge_def WeekDay_def tt)
  show bounds: "f - 6 \<le> gs \<and> gs \<le> f \<and> f + n - 1 \<le> ge \<and> ge \<le> f + n + 5"
    using bk fwd by simp
  show wd: "WeekDay gs = week_target ws \<and> WeekDay ge = (week_target ws + 6) mod 7"
    using bk fwd by (simp add: WeekDay_def)
  have first: "new_Date y m 1 = Date f"
    by (simp add: new_Date_def MakeDay_month_first[OF m] f_def Y_def)
  have cf: "YearFromDay f = Y" "MonthFromDay f = m"
    using civil_in_month(1,2)[OF m, of Y f] n28 by (simp_all add: f_def n_def)
  have tdY: "two_digit_year Y = Y" unfolding Y_def by (rule two_digit_year_idem)
  have "endOfMonth (Date f) = Date (MakeDay Y (m + 1) 0)"
    by (simp add: endOfMonth_def getFullYear_def getMonth_def cf new_Date_def tdY)
  then have last: "endOfMonth (Date f) = Date (f + n - 1)"
    using next_month_first[OF m, of Y 0] by (simp add: f_def n_def)
  have cl: "YearFromDay (f + n - 1) = Y"
    using civil_in_month(1)[OF m, of Y "f + n - 1"] n28 by (simp add: f_def n_def)
  have nqf: "\<not> (0 \<le> getFullYear (Date f) \<and> getFullYear (Date f) \<le> 99)"
    using Yq by (simp add: getFullYear_def cf)
  have nql: "\<not> (0 \<le> getFullYear (Date (f + n - 1)) \<and> getFullYear (Date (f + n - 1)) \<le> 99)"
    using Yq by (simp add: getFullYear_def cl)
  have gstart: "startOfWeek (Date f) ws = Date gs"
    by (rule Date_eqI)
       (simp add: startOfWeek_def Let_def addDays_day_number[OF nqf] getDay_def gs_def week_target_def)
  have gend: "endOfWeek (Date (f + n - 1)) ws = Date ge"
    by (rule Date_eqI)
       (simp add: endOfWeek_def Let_def addDays_day_number[OF nql] getDay_def ge_def)
  have month_iff: "(MonthFromDay d = m) = (f \<le> d \<and> d < f + n)" and year_ok: "\<not> (0 \<le> YearFromDay d \<and> YearFromDay d \<le> 99)"
    if "gs \<le> d" "d \<le> ge" for d
  proof -
    consider "d < f" | "f \<le> d" "d < f + n" | "f + n \<le> d" by linarith
    then have "(MonthFromDay d = m) = (f \<le> d \<and> d < f + n)
             \<and> (YearFromDay d = Y - 1 \<or> YearFromDay d = Y \<or> YearFromDay d = Y + 1)"
    proof cases
      case 1
      with that bounds have r: "month_first Y m - 6 \<le> d" "d < month_first Y m" by (simp_all add: f_def)
      from civil_before_month[OF m r] 1 show ?thesis by (auto simp: f_def)
    next
      case 2
      then have r: "month_first Y m \<le> d" "d < month_first Y m + DaysInMonth (LeapOfYear Y) m"
        by (simp_all add: f_def n_def)
      from civil_in_month(1,2)[OF m r] 2 show ?thesis by simp
    next
      case 3
      with that bounds have r: "month_first Y m + DaysInMonth (LeapOfYear Y) m \<le> d"
        "d < month_first Y m + DaysInMonth (LeapOfYear Y) m + 6" by (simp_all add: f_def n_def)
      from civil_after_month[OF m r] 3 show ?thesis by (auto simp: f_def n_def)
    qed
    then show "(MonthFromDay d = m) = (f \<le> d \<and> d < f + n)"
      and "\<not> (0 \<le> YearFromDay d \<and> YearFromDay d \<le> 99)"
      using Yr by auto
  qed
  have "buildMonthDays y m ws = buildMonthDays_loop m (Date ge) (Date gs)"
    by (simp add: buildMonthDays_def first last gstart gend)
  also have "\<dots> = map (\<lambda>d. \<lparr>iso = toISO (Date d), inMonth = (MonthFromDay d = m)\<rparr>) [gs..ge]"
    by (rule buildMonthDays_loop_upto) (use year_ok in blast)
  also have "\<dots> = map (\<lambda>d. \<lparr>iso = toISO (Date d), inMonth = (f \<le> d \<and> d < f + n)\<rparr>) [gs..ge]"
    by (rule map_cong) (use month_iff in auto)
  finally show grid: "buildMonthDays y m ws =
           map (\<lambda>d. \<lparr>iso = toISO (Date d), inMonth = (f \<le> d \<and> d < f + n)\<rparr>) [gs..ge]" .
  have "gs \<le> ge" using bounds n28 by linarith
  with full_weeks[OF t, of gs ge] bk fwd show "length (buildMonthDays y m ws) mod 7 = 0"
    by (simp add: grid)
qed

lemma month_date_civil:
  "getFullYear (month_date i) = i div 12" "getMonth (month_date i) = i mod 12"
proof -
  have r: "0 \<le> i mod 12" "i mod 12 \<le> 11" by simp_all
  have n: "month_first (i div 12) (i mod 12)
      < month_first (i div 12) (i mod 12) + DaysInMonth (LeapOfYear (i div 12)) (i mod 12)"
    using DaysInMonth_LeapOfYear_ge_28[of "i div 12" "i mod 12"] by simp
  show "getFullYear (month_date i) = i div 12"
    using civil_in_month(1)[OF r _ n] by (simp add: getFullYear_def month_date_def)
  show "getMonth (month_date i) = i mod 12"
    using civil_in_month(2)[OF r _ n] by (simp add: getMonth_def month_date_def)
qed

lemma new_Date_month_date:
  assumes "\<not> (0 \<le> y \<and> y \<le> 99)"
  shows "new_Date y m 1 = month_date (12 * y + m)"
proof -
  have "(12 * y + m) div 12 = y + m div 12" "(12 * y + m) mod 12 = m mod 12" by simp_all
  moreover have "two_digit_year y = y" using assms by (auto simp: two_digit_year_def)
  ultimately show ?thesis
    by (simp add: new_Date_def MakeDay_def month_date_def month_first_def Let_def)
qed

lemma buildMonths_loop_upto:
  assumes "1200 \<le> a" "0 \<le> eM" "eM \<le> 11"
  shows "buildMonths_loop eY eM ws (month_date a) =
           map (\<lambda>i. \<lparr>year = i div 12, month = i mod 12, days = buildMonthDays (i div 12) (i mod 12) ws\<rparr>)
             [a..12 * eY + eM]"
  using assms(1)
proof (induction "nat (12 * eY + eM + 1 - a)" arbitrary: a)
  case 0
  then have gt: "12 * eY + eM < a" by simp
  have a: "a = 12 * (a div 12) + a mod 12" by simp
  have r: "0 \<le> a mod 12" "a mod 12 \<le> 11" by simp_all
  have ng: "\<not> (a div 12 < eY \<or> (a div 12 = eY \<and> a mod 12 \<le> eM))"
    using gt a r assms(2,3) by linarith
  have "buildMonths_loop eY eM ws (month_date a) = []"
    by (subst buildMonths_loop.simps, unfold month_date_civil, rule if_not_P[OF ng])
  then show ?case using gt by simp
next
  case (Suc n)
  then have le: "a \<le> 12 * eY + eM" by simp
  have a: "a = 12 * (a div 12) + a mod 12" by simp
  have r: "0 \<le> a mod 12" "a mod 12 \<le> 11" by simp_all
  have g: "a div 12 < eY \<or> (a div 12 = eY \<and> a mod 12 \<le> eM)"
    using le a r assms(2,3) by linarith
  have "100 \<le> a div 12" using Suc.prems by simp
  then have "new_Date (a div 12) (a mod 12 + 1) 1 = month_date (12 * (a div 12) + (a mod 12 + 1))"
    by (intro new_Date_month_date) simp
  then have nx: "new_Date (a div 12) (a mod 12 + 1) 1 = month_date (a + 1)"
    by (simp add: add.assoc[symmetric])
  have "n = nat (12 * eY + eM + 1 - (a + 1))" using Suc.hyps(2) by simp
  moreover have "1200 \<le> a + 1" using Suc.prems by simp
  ultimately have IH: "buildMonths_loop eY eM ws (month_date (a + 1)) =
      map (\<lambda>i. \<lparr>year = i div 12, month = i mod 12, days = buildMonthDays (i div 12) (i mod 12) ws\<rparr>)
        [a + 1..12 * eY + eM]"
    by (rule Suc.hyps(1))
  have "buildMonths_loop eY eM ws (month_date a) =
      (let y = a div 12; m = a mod 12
       in \<lparr>year = y, month = m, days = buildMonthDays y m ws\<rparr>
          # buildMonths_loop eY eM ws (new_Date y (m + 1) 1))"
    by (subst buildMonths_loop.simps, unfold month_date_civil, rule if_P[OF g])
  then show ?case
    by (simp add: nx IH upto_rec1[OF le] Let_def)
qed

lemma buildMonths_upto:
  assumes "101 \<le> sy" "1 \<le> sm" "sm \<le> 12" "\<not> (0 \<le> ey \<and> ey \<le> 99)" "1 \<le> em" "em \<le> 12"
  shows "buildMonths (sy, sm) (Some (ey, em)) ws now =
           map (\<lambda>i. \<lparr>year = i div 12, month = i mod 12, days = buildMonthDays (i div 12) (i mod 12) ws\<rparr>)
             [12 * sy + sm - 1..12 * ey + em - 1]"
proof -
  have s: "\<not> (0 \<le> sy \<and> sy \<le> 99)" using assms(1) by simp
  have ps: "getFullYear (parseYM (sy, sm)) = sy" "getMonth (parseYM (sy, sm)) = sm - 1"
    by (rule parseYM_plain[OF s assms(2,3)])+
  have pe: "getFullYear (parseYM (ey, em)) = ey" "getMonth (parseYM (ey, em)) = em - 1"
    by (rule parseYM_plain[OF assms(4,5,6)])+
  have c: "new_Date sy (sm - 1) 1 = month_date (12 * sy + sm - 1)"
    using new_Date_month_date[OF s, of "sm - 1"] by (simp add: algebra_simps)
  have "1200 \<le> 12 * sy + sm - 1" using assms(1,2) by simp
  from buildMonths_loop_upto[OF this, of "em - 1" ey ws] assms(5,6)
  show ?thesis
    by (simp add: buildMonths_def ps pe c algebra_simps)
qed

lemma digit_cases:
  fixes k :: nat
  assumes "k < 10"
  shows "k = 0 \<or> k = 1 \<or> k = 2 \<or> k = 3 \<or> k = 4 \<or> k = 5 \<or> k = 6 \<or> k = 7 \<or> k = 8 \<or> k = 9"
  using assms by arith

lemma digit_value_digit_char: "k < 10 \<Longrightarrow> digit_value (digit_char k) = k"
  by (drule digit_cases) (elim disjE; simp add: digit_value_def digit_char_def)

lemma digit_char_not_minus: "k < 10 \<Longrightarrow> digit_char k \<noteq> CHR ''-''"
  by (drule digit_cases) (elim disjE; simp add: digit_char_def)

lemma string_to_nat_snoc: "string_to_nat (s @ [c]) = 10 * string_to_nat s + digit_value c"
  by (simp add: string_to_nat_def)

lemma string_to_nat_nat_to_string: "string_to_nat (nat_to_string n) = n"
proof (induction n rule: nat_to_string.induct)
  case (1 n)
  show ?case
  proof (cases "n < 10")
    case True
    then show ?thesis
      by (subst nat_to_string.simps) (simp add: string_to_nat_def digit_value_digit_char)
  next
    case False
    with 1 have "string_to_nat (nat_to_string (n div 10)) = n div 10" by simp
    with False show ?thesis
      by (subst nat_to_string.simps) (simp add: string_to_nat_snoc digit_value_digit_char)
  qed
qed

lemma nat_to_string_inj: "nat_to_string a = nat_to_string b \<Longrightarrow> a = b"
  by (metis string_to_nat_nat_to_string)

lemma nat_to_string_hd: "\<exists>k r. k < 10 \<and> nat_to_string n = digit_char k # r"
proof (induction n rule: nat_to_string.induct)
  case (1 n)
  show ?case
  proof (cases "n < 10")
    case True
    then show ?thesis by (subst nat_to_string.simps) auto
  next
    case False
    with 1 obtain k r where "k < 10" "nat_to_string (n div 10) = digit_char k # r" by blast
    with False show ?thesis by (subst nat_to_string.simps) auto
  qed
qed

lemma int_to_string_inj:
  assumes "int_to_string a = int_to_string b"
  shows "a = b"
proof -
  have neg: "i < 0 \<Longrightarrow> \<exists>r. int_to_string i = CHR ''-'' # r" for i
    by (simp add: int_to_string_def)
  have pos: "\<not> i < 0 \<Longrightarrow> \<exists>k r. k < 10 \<and> int_to_string i = digit_char k # r" for i
    using nat_to_string_hd[of "nat i"] by (simp add: int_to_string_def)
  have sign: "(a < 0) = (b < 0)"
  proof (rule ccontr)
    assume "(a < 0) \<noteq> (b < 0)"
    then consider "a < 0" "\<not> b < 0" | "\<not> a < 0" "b < 0" by blast
    then show False
    proof cases
      case 1
      with neg[of a] pos[of b] assms show False by (auto simp: digit_char_not_minus)
    next
      case 2
      with neg[of b] pos[of a] assms show False by (auto simp: digit_char_not_minus)
    qed
  qed
  show ?thesis
  proof (cases "a < 0")
    case True
    with sign assms have "nat (- a) = nat (- b)"
      by (auto simp: int_to_string_def dest: nat_to_string_inj)
    with True sign show ?thesis by simp
  next
    case False
    with sign assms have "nat a = nat b"
      by (auto simp: int_to_string_def dest: nat_to_string_inj)
    with False sign show ?thesis by simp
  qed
qed

lemma pad_two_chars:
  assumes "0 \<le> n" "n \<le> 99"
  shows "pad n = [digit_char (nat n div 10), digit_char (nat n mod 10)]"
proof (cases "n < 10")
  case True
  with assms have "nat n < 10" "nat n div 10 = 0" "nat n mod 10 = nat n" by simp_all
  with True assms show ?thesis
    by (simp add: pad_def int_to_string_def nat_to_string.simps[of "nat n"] digit_char_def)
next
  case False
  with assms have a: "\<not> nat n < 10" "nat n div 10 < 10" by simp_all
  with False assms show ?thesis
    by (simp add: pad_def int_to_string_def nat_to_string.simps[of "nat n"] nat_to_string.simps[of "nat n div 10"])
qed

lemma pad_inj:
  assumes "0 \<le> a" "a \<le> 99" "0 \<le> b" "b \<le> 99" "pad a = pad b"
  shows "a = b"
proof -
  have d: "digit_char i = digit_char j \<Longrightarrow> i < 10 \<Longrightarrow> j < 10 \<Longrightarrow> i = j" for i j
    by (metis digit_value_digit_char)
  from assms have "digit_char (nat a div 10) = digit_char (nat b div 10)"
    "digit_char (nat a mod 10) = digit_char (nat b mod 10)"
    by (simp_all add: pad_two_chars)
  moreover have "nat a div 10 < 10" "nat b div 10 < 10" using assms(1-4) by simp_all
  ultimately have "nat a div 10 = nat b div 10" "nat a mod 10 = nat b mod 10"
    by (auto intro: d)
  then have "nat a = nat b" by (metis div_mult_mod_eq)
  with assms(1,3) show ?thesis by simp
qed

lemma toISO_inj:
  assumes "toISO d = toISO d'"
  shows "d = d'"
proof -
  have rng: "0 \<le> getMonth x + 1 \<and> getMonth x + 1 \<le> 99 \<and> 0 \<le> getDate x \<and> getDate x \<le> 99" for x
  proof -
    have "InLeapYear (day_number x) = 0 \<or> InLeapYear (day_number x) = 1"
      using LeapOfYear_cases[of "YearFromDay (day_number x)"] by (auto simp: InLeapYear_def)
    then have "DaysInMonth (InLeapYear (day_number x)) (MonthFromDay (day_number x)) \<le> 31"
      by (auto simp: DaysInMonth_def)
    with MonthFromDay_range[of "day_number x"] DateFromDay_range[of "day_number x"]
    show ?thesis by (simp add: getMonth_def getDate_def)
  qed
  have form: "toISO x = int_to_string (getFullYear x)
      @ [CHR ''-'', digit_char (nat (getMonth x + 1) div 10), digit_char (nat (getMonth x + 1) mod 10),
         CHR ''-'', digit_char (nat (getDate x) div 10), digit_char (nat (getDate x) mod 10)]" for x
    using rng[of x] by (simp add: toISO_def pad_two_chars)
  from assms have "int_to_string (getFullYear d) = int_to_string (getFullYear d')
    \<and> pad (getMonth d + 1) = pad (getMonth d' + 1) \<and> pad (getDate d) = pad (getDate d')"
    using rng[of d] rng[of d'] by (simp add: form pad_two_chars)
  then have e: "int_to_string (getFullYear d) = int_to_string (getFullYear d')"
      "pad (getMonth d + 1) = pad (getMonth d' + 1)" "pad (getDate d) = pad (getDate d')"
    by simp_all
  have "getFullYear d = getFullYear d'" by (rule int_to_string_inj[OF e(1)])
  moreover have "getMonth d + 1 = getMonth d' + 1"
    using rng[of d] rng[of d'] by (intro pad_inj[OF _ _ _ _ e(2)]) simp_all
  moreover have "getDate d = getDate d'"
    using rng[of d] rng[of d'] by (intro pad_inj[OF _ _ _ _ e(3)]) simp_all
  ultimately have "day_number d = day_number d'"
    using MakeDay_of_civil[of "day_number d" 0] MakeDay_of_civil[of "day_number d'" 0]
    by (simp add: getFullYear_def getMonth_def getDate_def)
  then show ?thesis by (cases d; cases d') simp
qed

lemma filter_upto_eq:
  fixes a b i :: int
  assumes "a \<le> i" "i \<le> b"
  shows "filter (\<lambda>j. j = i) [a..b] = [i]"
proof -
  have "[a..b] = [a..i - 1] @ i # [i + 1..b]" by (rule upto_split3[OF assms])
  moreover have "filter (\<lambda>j. j = i) [a..i - 1] = []" by (simp add: filter_empty_conv)
  moreover have "filter (\<lambda>j. j = i) [i + 1..b] = []" by (simp add: filter_empty_conv)
  ultimately show ?thesis by simp
qed

lemma in_month_member:
  assumes "0 \<le> m" "m \<le> 11" "101 \<le> y"
  shows "\<lparr>iso = toISO (Date dn), inMonth = True\<rparr> \<in> set (buildMonthDays y m ws)
     \<longleftrightarrow> month_first y m \<le> dn \<and> dn < month_first y m + DaysInMonth (LeapOfYear y) m"
proof -
  have ty: "two_digit_year y = y" using assms(3) by (simp add: two_digit_year_def)
  have y: "y \<noteq> - 1" "y \<noteq> 100" using assms(3) by simp_all
  let ?f = "month_first y m" and ?n = "DaysInMonth (LeapOfYear y) m"
  from buildMonthDays_grid(1,2)[OF assms(1,2) y, of ws, unfolded ty]
  obtain gs ge where g: "buildMonthDays y m ws =
      map (\<lambda>d. \<lparr>iso = toISO (Date d), inMonth = (?f \<le> d \<and> d < ?f + ?n)\<rparr>) [gs..ge]"
    and b: "gs \<le> ?f" "?f + ?n - 1 \<le> ge"
    by blast
  show ?thesis
  proof
    assume "\<lparr>iso = toISO (Date dn), inMonth = True\<rparr> \<in> set (buildMonthDays y m ws)"
    then obtain d where "toISO (Date d) = toISO (Date dn)" "?f \<le> d \<and> d < ?f + ?n"
      unfolding g by auto
    moreover from this(1) have "d = dn" using toISO_inj[of "Date d" "Date dn"] by simp
    ultimately show "?f \<le> dn \<and> dn < ?f + ?n" by simp
  next
    assume a: "?f \<le> dn \<and> dn < ?f + ?n"
    with b have "dn \<in> set [gs..ge]" by simp
    with a show "\<lparr>iso = toISO (Date dn), inMonth = True\<rparr> \<in> set (buildMonthDays y m ws)"
      unfolding g by (auto simp: image_iff intro!: bexI[of _ dn])
  qed
qed

lemma month_index_unique:
  assumes "0 \<le> m" "m \<le> 11"
    "month_first y m \<le> dn" "dn < month_first y m + DaysInMonth (LeapOfYear y) m"
  shows "(month_first (i div 12) (i mod 12) \<le> dn
          \<and> dn < month_first (i div 12) (i mod 12) + DaysInMonth (LeapOfYear (i div 12)) (i mod 12))
         \<longleftrightarrow> i = 12 * y + m"
proof
  assume a: "month_first (i div 12) (i mod 12) \<le> dn
          \<and> dn < month_first (i div 12) (i mod 12) + DaysInMonth (LeapOfYear (i div 12)) (i mod 12)"
  have r: "0 \<le> i mod 12" "i mod 12 \<le> 11" by simp_all
  from a civil_in_month(1,2)[OF r, of "i div 12" dn] civil_in_month(1,2)[OF assms]
  have "i div 12 = y" "i mod 12 = m" by simp_all
  then show "i = 12 * y + m" using mult_div_mod_eq[of 12 i] by simp
next
  assume "i = 12 * y + m"
  with assms(1,2) have "i div 12 = y" "i mod 12 = m" by simp_all
  with assms(3,4) show "month_first (i div 12) (i mod 12) \<le> dn
          \<and> dn < month_first (i div 12) (i mod 12) + DaysInMonth (LeapOfYear (i div 12)) (i mod 12)"
    by simp
qed

text \<open>
  From the year 101 on, every date of a month between the start and the end month is an
  in-month day of exactly one grid of the month sequence.
\<close>

lemma buildMonths_exactly_one:
  assumes "101 \<le> sy" "1 \<le> sm" "sm \<le> 12" "\<not> (0 \<le> ey \<and> ey \<le> 99)" "1 \<le> em" "em \<le> 12"
    and "0 \<le> m" "m \<le> 11" "1 \<le> k" "k \<le> DaysInMonth (LeapOfYear y) m"
    and "12 * sy + sm - 1 \<le> 12 * y + m" "12 * y + m \<le> 12 * ey + em - 1"
  shows "length (filter (\<lambda>g. \<lparr>iso = toISO (new_Date y m k), inMonth = True\<rparr> \<in> set (days g))
                  (buildMonths (sy, sm) (Some (ey, em)) ws now)) = 1"
proof -
  define dn where "dn = month_first y m + k - 1"
  have y: "101 \<le> y" using assms(1,2,8,11) by linarith
  then have d: "new_Date y m k = Date dn"
    using assms(7,8) by (simp add: new_Date_def two_digit_year_def MakeDay_month_first dn_def)
  have r: "month_first y m \<le> dn" "dn < month_first y m + DaysInMonth (LeapOfYear y) m"
    using assms(9,10) by (simp_all add: dn_def)
  have P: "(\<lparr>iso = toISO (Date dn), inMonth = True\<rparr> \<in> set (buildMonthDays (i div 12) (i mod 12) ws))
        = (i = 12 * y + m)" if "12 * sy + sm - 1 \<le> i" for i
  proof -
    have "101 \<le> i div 12" using that assms(1,2) by simp
    then show ?thesis
      using in_month_member[of "i mod 12" "i div 12" dn ws] month_index_unique[OF assms(7,8) r, of i]
      by simp
  qed
  have "filter (\<lambda>g. \<lparr>iso = toISO (Date dn), inMonth = True\<rparr> \<in> set (days g))
          (buildMonths (sy, sm) (Some (ey, em)) ws now)
      = map (\<lambda>i. \<lparr>year = i div 12, month = i mod 12, days = buildMonthDays (i div 12) (i mod 12) ws\<rparr>)
          (filter (\<lambda>i. i = 12 * y + m) [12 * sy + sm - 1..12 * ey + em - 1])"
    unfolding buildMonths_upto[OF assms(1-6)] filter_map
    by (rule arg_cong[where f = "map _"], rule filter_cong) (use P in \<open>simp_all add: comp_def\<close>)
  then show ?thesis
    by (simp add: d filter_upto_eq[OF assms(11,12)])
qed

text \<open>
  Claim C6 on the code, at the year \<open>100\<close>. 1 January 100 is a Friday, so the grid starts
  on 27 December 99; \<open>addDays\<close> then builds \<^verbatim>\<open>new Date(99, 11, 28)\<close>, which is
  28 December 1999, after the grid's end. The grid of January 100 is the single padding day
  \<^verbatim>\<open>99-12-27\<close>: its length is not a multiple of \<open>7\<close> and no day of the month is in it.
\<close>

theorem buildMonthDays_year_100:
  "buildMonthDays 100 0 Sun = [\<lparr>iso = ''99-12-27'', inMonth = False\<rparr>]
 \<and> length (buildMonthDays 100 0 Sun) mod 7 = 1
 \<and> toISO (new_Date 100 0 1) = ''100-01-01''
 \<and> \<lparr>iso = ''100-01-01'', inMonth = True\<rparr> \<notin> set (buildMonthDays 100 0 Sun)"
proof -
  have "toISO (new_Date 100 0 1) = ''100-01-01''" by (simp add: cal_eval text_eval)
  then show ?thesis by (simp add: grid_100_Sun)
qed

text \<open>
  Claim C7 on the code, at the year \<open>100\<close>. For start and end month \<open>0100-01\<close> the month
  sequence is the one truncated grid above, and no grid holds 15 January 100 as an in-month
  day.
\<close>

theorem buildMonths_year_100:
  "buildMonths (100, 1) (Some (100, 1)) Sun (Date 0)
     = [\<lparr>year = 100, month = 0, days = [\<lparr>iso = ''99-12-27'', inMonth = False\<rparr>]\<rparr>]
 \<and> toISO (new_Date 100 0 15) = ''100-01-15''
 \<and> \<lparr>iso = ''100-01-15'', inMonth = True\<rparr>
     \<notin> set (concat (map days (buildMonths (100, 1) (Some (100, 1)) Sun (Date 0))))"
proof -
  have p: "parseYM (100, 1) = Date (- 683003)" by (simp add: cal_eval)
  have y: "getFullYear (Date (- 683003)) = 100" "getMonth (Date (- 683003)) = 0" by (simp_all add: cal_eval)
  have c: "new_Date 100 0 1 = Date (- 683003)" by (simp add: cal_eval)
  have n: "new_Date 100 1 1 = Date (- 682972)" by (simp add: cal_eval)
  have yn: "getFullYear (Date (- 682972)) = 100" "getMonth (Date (- 682972)) = 1" by (simp_all add: cal_eval)
  have "buildMonths (100, 1) (Some (100, 1)) Sun (Date 0) = buildMonths_loop 100 0 Sun (Date (- 683003))"
    by (simp add: buildMonths_def p y c)
  also have "\<dots> = \<lparr>year = 100, month = 0, days = buildMonthDays 100 0 Sun\<rparr> # buildMonths_loop 100 0 Sun (Date (- 682972))"
    by (subst buildMonths_loop.simps) (simp add: y n)
  also have "buildMonths_loop 100 0 Sun (Date (- 682972)) = []"
    by (subst buildMonths_loop.simps) (simp add: yn)
  finally have b: "buildMonths (100, 1) (Some (100, 1)) Sun (Date 0)
     = [\<lparr>year = 100, month = 0, days = [\<lparr>iso = ''99-12-27'', inMonth = False\<rparr>]\<rparr>]"
    by (simp add: grid_100_Sun)
  have "toISO (new_Date 100 0 15) = ''100-01-15''" by (simp add: cal_eval text_eval)
  with b show ?thesis by simp
qed

lemma cursor_of_start:
  "getFullYear (new_Date (getFullYear s) (getMonth s) 1) = two_digit_year (getFullYear s)"
  "getMonth (new_Date (getFullYear s) (getMonth s) 1) = getMonth s"
proof -
  have "getMonth s div 12 = 0" "getMonth s mod 12 = getMonth s"
    using MonthFromDay_range[of "day_number s"] by (simp_all add: getMonth_def)
  then show "getFullYear (new_Date (getFullYear s) (getMonth s) 1) = two_digit_year (getFullYear s)"
    "getMonth (new_Date (getFullYear s) (getMonth s) 1) = getMonth s"
    by (simp_all add: new_Date_first)
qed

lemma safeMonths_nonempty: "safeMonths ms s ws \<noteq> []"
  by (cases ms) (simp_all add: safeMonths_def Let_def)

text \<open>The loop of \<open>buildMonths\<close> does not run when the end month is before the start
  month; for month strings of years from 100 on, that is the order of the months as
  written.\<close>

lemma buildMonths_end_before_start:
  assumes "getFullYear (parseYM e) < getFullYear (parseYM s)
         \<or> (getFullYear (parseYM e) = getFullYear (parseYM s) \<and> getMonth (parseYM e) < getMonth (parseYM s))"
  shows "buildMonths s (Some e) ws now = []"
proof -
  let ?c = "new_Date (getFullYear (parseYM s)) (getMonth (parseYM s)) 1"
  have "getFullYear (parseYM s) \<le> getFullYear ?c"
    by (simp add: cursor_of_start two_digit_year_def)
  with assms have ng: "\<not> (getFullYear ?c < getFullYear (parseYM e)
       \<or> (getFullYear ?c = getFullYear (parseYM e) \<and> getMonth ?c \<le> getMonth (parseYM e)))"
    by (auto simp: cursor_of_start(2))
  have "buildMonths_loop (getFullYear (parseYM e)) (getMonth (parseYM e)) ws ?c = []"
    by (subst buildMonths_loop.simps, subst if_not_P[OF ng], rule refl)
  then show ?thesis
    by (simp add: buildMonths_def Let_def)
qed

lemma buildMonths_end_before_start_written:
  assumes "100 \<le> sy" "1 \<le> sm" "sm \<le> 12" "100 \<le> ey" "1 \<le> em" "em \<le> 12"
    and "ey < sy \<or> (ey = sy \<and> em < sm)"
  shows "buildMonths (sy, sm) (Some (ey, em)) ws now = []"
    and "safeMonths (buildMonths (sy, sm) (Some (ey, em)) ws now) (sy, sm) ws =
           [\<lparr>year = sy, month = sm - 1, days = buildMonthDays sy (sm - 1) ws\<rparr>]"
proof -
  have s: "\<not> (0 \<le> sy \<and> sy \<le> 99)" and e: "\<not> (0 \<le> ey \<and> ey \<le> 99)" using assms(1,4) by simp_all
  note ps = parseYM_plain[OF s assms(2,3)] and pe = parseYM_plain[OF e assms(5,6)]
  show b: "buildMonths (sy, sm) (Some (ey, em)) ws now = []"
    by (rule buildMonths_end_before_start) (use assms(7) in \<open>simp add: ps pe\<close>)
  show "safeMonths (buildMonths (sy, sm) (Some (ey, em)) ws now) (sy, sm) ws =
           [\<lparr>year = sy, month = sm - 1, days = buildMonthDays sy (sm - 1) ws\<rparr>]"
    by (simp add: b safeMonths_def Let_def ps)
qed

text \<open>
  Claim C8 on the code, at an end month written with a year below 100. The end \<open>0099-12\<close>
  precedes the start \<open>1999-11\<close>, but \<open>parseYM\<close> builds \<^verbatim>\<open>new Date(99, 11, 1)\<close>, which is
  1 December 1999: the loop runs, the month sequence is the two grids of November and
  December 1999 instead of the empty sequence, and no fallback grid is substituted. (From
  the year 100 on the claim holds: \<open>buildMonths_end_before_start_written\<close>.)
\<close>

theorem end_0099_before_start_1999:
  "buildMonths (1999, 11) (Some (99, 12)) Sun (Date 0) =
     [\<lparr>year = 1999, month = 10, days = buildMonthDays 1999 10 Sun\<rparr>,
      \<lparr>year = 1999, month = 11, days = buildMonthDays 1999 11 Sun\<rparr>]
 \<and> buildMonths (1999, 11) (Some (99, 12)) Sun (Date 0) \<noteq> []
 \<and> safeMonths (buildMonths (1999, 11) (Some (99, 12)) Sun (Date 0)) (1999, 11) Sun =
     [\<lparr>year = 1999, month = 10, days = buildMonthDays 1999 10 Sun\<rparr>,
      \<lparr>year = 1999, month = 11, days = buildMonthDays 1999 11 Sun\<rparr>]"
proof -
  have s: "parseYM (1999, 11) = Date 10896" and e: "parseYM (99, 12) = Date 10926"
    by (simp_all add: cal_eval)
  have v: "getFullYear (Date 10896) = 1999" "getMonth (Date 10896) = 10"
          "getFullYear (Date 10926) = 1999" "getMonth (Date 10926) = 11"
          "getFullYear (Date 10957) = 2000" "getMonth (Date 10957) = 0"
    by (simp_all add: cal_eval)
  have c: "new_Date 1999 10 1 = Date 10896" "new_Date 1999 11 1 = Date 10926"
    "new_Date 1999 12 1 = Date 10957"
    by (simp_all add: cal_eval)
  have "buildMonths (1999, 11) (Some (99, 12)) Sun (Date 0) = buildMonths_loop 1999 11 Sun (Date 10896)"
    by (simp add: buildMonths_def s e v c)
  also have "\<dots> = \<lparr>year = 1999, month = 10, days = buildMonthDays 1999 10 Sun\<rparr>
      # buildMonths_loop 1999 11 Sun (Date 10926)"
    by (subst buildMonths_loop.simps) (simp add: v c)
  also have "buildMonths_loop 1999 11 Sun (Date 10926) =
      \<lparr>year = 1999, month = 11, days = buildMonthDays 1999 11 Sun\<rparr>
      # buildMonths_loop 1999 11 Sun (Date 10957)"
    by (subst buildMonths_loop.simps) (simp add: v c)
  also have "buildMonths_loop 1999 11 Sun (Date 10957) = []"
    by (subst buildMonths_loop.simps) (simp add: v)
  finally have b: "buildMonths (1999, 11) (Some (99, 12)) Sun (Date 0) =
     [\<lparr>year = 1999, month = 10, days = buildMonthDays 1999 10 Sun\<rparr>,
      \<lparr>year = 1999, month = 11, days = buildMonthDays 1999 11 Sun\<rparr>]" .
  then show ?thesis by (simp add: safeMonths_def)
qed

end
